theory Spec2Isabelle
  imports Complex_Main "HOL-Library.Multiset"
begin

section \<open>Radiocarbon calibration engine (calibration-math.js)\<close>

text \<open>
  JavaScript numbers are IEEE 754 binary64 values. The sums, the product and the
  comparisons of \<open>findHPD\<close> are modelled with their rounding and their special values.
  Elsewhere a number is modelled as an exact real: rounding, overflow and underflow are
  outside the model there, and the special values appear where the source produces or
  tests them (\<open>Infinity\<close> from \<open>Math.min()\<close> of no arguments, \<open>NaN\<close> and non-numbers in
  the input validation of \<open>calibrateDate\<close>).
\<close>

subsection \<open>Data\<close>

text \<open>
  The source's objects are duck-typed: a curve point \<open>{cal_BP, c14_BP, error}\<close> and a
  probability point \<open>{cal_BP, probability}\<close> share the field \<open>cal_BP\<close>.
\<close>

record cal_point =
  cal_BP :: real

record curve_point = cal_point +
  c14_BP :: real
  error :: real

record prob_point = cal_point +
  probability :: real

text \<open>The object literal \<open>{ c14_BP, error }\<close> that \<open>interpolate\<close> returns.\<close>

record curve_value =
  cv_c14_BP :: real
  cv_error :: real

subsection \<open>interpolate\<close>

definition interpolate :: "real \<Rightarrow> curve_point \<Rightarrow> curve_point \<Rightarrow> curve_value" where
  "interpolate targetCalBP lowerPoint upperPoint =
     (if cal_BP lowerPoint = cal_BP upperPoint
      then \<lparr>cv_c14_BP = c14_BP lowerPoint, cv_error = error lowerPoint\<rparr>
      else
        let factor = (targetCalBP - cal_BP lowerPoint) / (cal_BP upperPoint - cal_BP lowerPoint)
        in \<lparr>cv_c14_BP = c14_BP lowerPoint + factor * (c14_BP upperPoint - c14_BP lowerPoint),
            cv_error = error lowerPoint + factor * (error upperPoint - error lowerPoint)\<rparr>)"

subsection \<open>Values and errors of the JavaScript run time\<close>

text \<open>
  An argument of \<open>calibrateDate\<close> as the validation sees it: a number, \<open>NaN\<close>
  (\<open>typeof\<close> is \<open>'number'\<close>, \<open>isNaN\<close> holds), or a value whose \<open>typeof\<close> is not
  \<open>'number'\<close>.
\<close>

datatype jsval = Num real | NaN | NotNumber

text \<open>
  The errors the engine can raise: the four \<open>throw new Error(...)\<close> sites of
  \<open>calibrateDate\<close> (with the value the message names), and the \<open>TypeError\<close> of the
  run time when a property is read from \<open>undefined\<close>.
\<close>

datatype js_error =
    InvalidRadiocarbonAge jsval
  | InvalidUncertainty jsval
  | InvalidReservoirCorrection jsval
  | FailedToLoad string
  | CurveDataMissing string
  | TypeError

text \<open>\<open>xs[i]\<close>: \<open>undefined\<close> (here \<open>None\<close>) when the index is out of range.\<close>

definition at_index :: "'a list \<Rightarrow> int \<Rightarrow> 'a option" where
  "at_index xs i = (if 0 \<le> i \<and> i < int (length xs) then Some (xs ! nat i) else None)"

subsection \<open>getCurveValueAt\<close>

text \<open>
  \<open>getCurveValueAt\<close> returns either an element of the curve itself or the fresh
  object built by \<open>interpolate\<close>.
\<close>

datatype curve_lookup = Point curve_point | Interpolated curve_value

fun lookup_c14_BP :: "curve_lookup \<Rightarrow> real" where
  "lookup_c14_BP (Point p) = c14_BP p"
| "lookup_c14_BP (Interpolated v) = cv_c14_BP v"

fun lookup_error :: "curve_lookup \<Rightarrow> real" where
  "lookup_error (Point p) = error p"
| "lookup_error (Interpolated v) = cv_error v"

text \<open>The \<open>while (low <= high)\<close> loop and the interpolation after it.\<close>

function getCurveValueAt_loop ::
  "real \<Rightarrow> curve_point list \<Rightarrow> int \<Rightarrow> int \<Rightarrow> js_error + curve_lookup" where
  "getCurveValueAt_loop calBP curveData low high =
     (if low \<le> high then
        (let mid = (low + high) div 2 in
         case at_index curveData mid of
           None \<Rightarrow> Inl TypeError
         | Some m \<Rightarrow>
             if cal_BP m < calBP then getCurveValueAt_loop calBP curveData (mid + 1) high
             else if cal_BP m > calBP then getCurveValueAt_loop calBP curveData low (mid - 1)
             else Inr (Point m))
      else
        (case at_index curveData high of
           None \<Rightarrow> Inl TypeError
         | Some lowerPoint \<Rightarrow>
             (case at_index curveData low of
                None \<Rightarrow> Inl TypeError
              | Some upperPoint \<Rightarrow>
                  Inr (Interpolated (interpolate calBP lowerPoint upperPoint)))))"
  by pat_completeness auto
termination
  by (relation "measure (\<lambda>(calBP, curveData, low, high). nat (high - low + 1))") auto

declare getCurveValueAt_loop.simps [simp del]

definition getCurveValueAt :: "real \<Rightarrow> curve_point list \<Rightarrow> js_error + curve_lookup" where
  "getCurveValueAt calBP curveData =
     (case curveData of
        [] \<Rightarrow> Inl TypeError
      | first # _ \<Rightarrow>
          if calBP \<le> cal_BP first then Inr (Point first)
          else if calBP \<ge> cal_BP (last curveData) then Inr (Point (last curveData))
          else getCurveValueAt_loop calBP curveData 0 (int (length curveData) - 1))"


text \<open>The curve of the source's unit tests.\<close>

definition test_curve :: "curve_point list" where
  "test_curve =
     [\<lparr>cal_BP = 100, c14_BP = 200, error = 10\<rparr>,
      \<lparr>cal_BP = 200, c14_BP = 300, error = 15\<rparr>,
      \<lparr>cal_BP = 300, c14_BP = 400, error = 20\<rparr>,
      \<lparr>cal_BP = 400, c14_BP = 500, error = 25\<rparr>]"

subsection \<open>Binary64 arithmetic\<close>

text \<open>
  The sums and the product of \<open>findHPD\<close> decide, through the comparison with the
  threshold, which points are included, so they are modelled as the operations of
  IEEE 754 binary64 numbers: a finite number is the real it denotes, and a sum or product
  of finite numbers is the exact result rounded to the nearest binary64 number, ties to
  the even significand. The sign of a zero is not kept: addition, multiplication and the
  comparisons give the same values for both zeros.
\<close>

datatype double = Finite real | PlusInfinity | MinusInfinity | NotANumber

text \<open>
  The spacing of the binary64 numbers at a magnitude \<open>a\<close>: \<open>2 ^ (e - 52)\<close> when
  \<open>2 ^ e \<le> a < 2 ^ (e + 1)\<close>, and \<open>2 ^ (- 1074)\<close> below the least normal number
  \<open>2 ^ (- 1022)\<close>.
\<close>

function quantum :: "real \<Rightarrow> real" where
  "quantum a = (if a < 1 / 2 ^ 1022 then 1 / 2 ^ 1074
                else if a < 1 then quantum (2 * a) / 2
                else if 2 \<le> a then 2 * quantum (a / 2)
                else 1 / 2 ^ 52)"
  by pat_completeness auto
termination
proof (relation "measure (\<lambda>a. if 1 \<le> a then nat \<lfloor>a\<rfloor> else nat \<lfloor>1 / a\<rfloor> + 1)", goal_cases)
  case 1
  show ?case by simp
next
  case (2 a)
  then have pos: "0 < a" and lt: "a < 1"
    by (simp_all add: not_less)
  show ?case
  proof (cases "1 \<le> 2 * a")
    case True
    have "\<lfloor>2 * a\<rfloor> = 1" using True lt by linarith
    moreover have "1 < 1 / a" using pos lt by simp
    then have "1 \<le> \<lfloor>1 / a\<rfloor>" by linarith
    ultimately show ?thesis using True lt by simp
  next
    case False
    then have h: "2 < 1 / a" using pos by (simp add: field_simps)
    have "1 / (2 * a) = (1 / a) / 2" by simp
    then have "of_int \<lfloor>1 / (2 * a)\<rfloor> \<le> (1 / a) / 2" by (metis of_int_floor_le)
    moreover have "1 / a < of_int \<lfloor>1 / a\<rfloor> + 1" by linarith
    ultimately have "(of_int \<lfloor>1 / (2 * a)\<rfloor> :: real) < of_int \<lfloor>1 / a\<rfloor>" using h by linarith
    then have less: "\<lfloor>1 / (2 * a)\<rfloor> < \<lfloor>1 / a\<rfloor>" by simp
    have "0 \<le> \<lfloor>1 / (2 * a)\<rfloor>" using pos by simp
    then have "nat \<lfloor>1 / (2 * a)\<rfloor> < nat \<lfloor>1 / a\<rfloor>" using less by linarith
    moreover have "\<not> 1 \<le> a" using lt by simp
    ultimately show ?thesis using False by simp
  qed
next
  case (3 a)
  then have a: "2 \<le> a" by simp
  have "of_int \<lfloor>a / 2\<rfloor> \<le> a / 2" by (rule of_int_floor_le)
  moreover have "a < of_int \<lfloor>a\<rfloor> + 1" by linarith
  ultimately have "(of_int \<lfloor>a / 2\<rfloor> :: real) < of_int \<lfloor>a\<rfloor>" using a by linarith
  then have "\<lfloor>a / 2\<rfloor> < \<lfloor>a\<rfloor>" by simp
  moreover have "0 \<le> \<lfloor>a / 2\<rfloor>" using a by simp
  ultimately show ?case using a by simp
qed

declare quantum.simps [simp del]

text \<open>The nearest integer, the even one of the two when \<open>n\<close> lies halfway.\<close>

definition roundTiesToEven :: "real \<Rightarrow> int" where
  "roundTiesToEven n =
     (let f = \<lfloor>n\<rfloor>; d = n - of_int f
      in if d < 1 / 2 then f else if 1 / 2 < d then f + 1 else if even f then f else f + 1)"

text \<open>
  Rounding of an exact result, also of a decimal literal, to binary64: to the nearest
  multiple of the spacing, and to an infinity from \<open>2 ^ 1024\<close> on.
\<close>

definition rnd :: "real \<Rightarrow> double" where
  "rnd x =
     (let q = quantum \<bar>x\<bar>; y = of_int (roundTiesToEven (x / q)) * q
      in if 2 ^ 1024 \<le> y then PlusInfinity
         else if y \<le> - (2 ^ 1024) then MinusInfinity
         else Finite y)"

text \<open>The operators \<open>+\<close> and \<open>*\<close> of the source.\<close>

fun dadd :: "double \<Rightarrow> double \<Rightarrow> double" where
  "dadd (Finite a) (Finite b) = rnd (a + b)"
| "dadd NotANumber _ = NotANumber"
| "dadd _ NotANumber = NotANumber"
| "dadd PlusInfinity MinusInfinity = NotANumber"
| "dadd MinusInfinity PlusInfinity = NotANumber"
| "dadd PlusInfinity _ = PlusInfinity"
| "dadd _ PlusInfinity = PlusInfinity"
| "dadd MinusInfinity _ = MinusInfinity"
| "dadd _ MinusInfinity = MinusInfinity"

text \<open>An infinity of the sign of \<open>s\<close>; infinity times zero is \<open>NaN\<close>.\<close>

definition signedInfinity :: "real \<Rightarrow> double" where
  "signedInfinity s = (if s = 0 then NotANumber else if 0 < s then PlusInfinity else MinusInfinity)"

fun dmul :: "double \<Rightarrow> double \<Rightarrow> double" where
  "dmul (Finite a) (Finite b) = rnd (a * b)"
| "dmul NotANumber _ = NotANumber"
| "dmul _ NotANumber = NotANumber"
| "dmul PlusInfinity (Finite b) = signedInfinity b"
| "dmul (Finite a) PlusInfinity = signedInfinity a"
| "dmul MinusInfinity (Finite b) = signedInfinity (- b)"
| "dmul (Finite a) MinusInfinity = signedInfinity (- a)"
| "dmul PlusInfinity PlusInfinity = PlusInfinity"
| "dmul MinusInfinity MinusInfinity = PlusInfinity"
| "dmul PlusInfinity MinusInfinity = MinusInfinity"
| "dmul MinusInfinity PlusInfinity = MinusInfinity"

text \<open>The comparisons \<open><=\<close> and \<open><\<close>: false whenever an operand is \<open>NaN\<close>.\<close>

fun dle :: "double \<Rightarrow> double \<Rightarrow> bool" where
  "dle NotANumber _ = False"
| "dle _ NotANumber = False"
| "dle MinusInfinity _ = True"
| "dle _ PlusInfinity = True"
| "dle (Finite a) (Finite b) = (a \<le> b)"
| "dle _ _ = False"

definition dlt :: "double \<Rightarrow> double \<Rightarrow> bool" where
  "dlt a b = (dle a b \<and> \<not> dle b a)"

subsection \<open>findHPD\<close>

text \<open>An interval \<open>{ min, max }\<close> of calendar years.\<close>

record interval =
  imin :: real
  imax :: real

text \<open>
  A value passed where the source expects an array: an array, or anything that fails
  \<open>Array.isArray\<close> (including the falsy values).
\<close>

datatype 'a js_array = NotAnArray | Array "'a list"

text \<open>The \<open>console.warn\<close> calls of the engine.\<close>

datatype warning =
    InvalidDistribution
  | InvalidConfidence double
  | InvalidCurveType string

text \<open>
  \<open>[...probDist].sort((a, b) => b.probability - a.probability)\<close>: \<open>Array.prototype.sort\<close>
  is stable, and so is \<open>sort_key\<close>. The probabilities of the points are finite binary64
  numbers, and the difference of two of them rounds to a number of the sign of the exact
  difference, so the comparator orders the points as the exact probabilities do.
\<close>

definition sortedByProb :: "prob_point list \<Rightarrow> prob_point list" where
  "sortedByProb probDist = sort_key (\<lambda>p. - probability p) probDist"

text \<open>\<open>probDist.reduce((sum, p) => sum + p.probability, 0)\<close>\<close>

definition totalProb :: "prob_point list \<Rightarrow> double" where
  "totalProb probDist = foldl (\<lambda>sum p. dadd sum (Finite (probability p))) (Finite 0) probDist"

text \<open>
  The loop that pushes points onto \<open>includedPoints\<close> until the cumulative probability
  reaches the target; the second argument is \<open>cumulativeProb\<close> on entry.
\<close>

fun collectPoints :: "double \<Rightarrow> double \<Rightarrow> prob_point list \<Rightarrow> prob_point list" where
  "collectPoints targetProb cumulativeProb [] = []"
| "collectPoints targetProb cumulativeProb (point # rest) =
     (if dle targetProb (dadd cumulativeProb (Finite (probability point))) then [point]
      else point # collectPoints targetProb (dadd cumulativeProb (Finite (probability point))) rest)"

text \<open>
  The confidence used after the range check \<open>conf <= 0 || conf > 1\<close>, which is false for
  \<open>NaN\<close> (and for an omitted confidence, which the comparisons and the product convert
  to \<open>NaN\<close>); \<open>0.95\<close> is the binary64 number the literal denotes.
\<close>

definition invalidConf :: "double \<Rightarrow> bool" where
  "invalidConf conf = (dle conf (Finite 0) \<or> dlt (Finite 1) conf)"

definition usedConf :: "double \<Rightarrow> double" where
  "usedConf conf = (if invalidConf conf then rnd 0.95 else conf)"

definition targetProb :: "prob_point list \<Rightarrow> double \<Rightarrow> double" where
  "targetProb probDist conf = dmul (totalProb probDist) (usedConf conf)"

definition includedPoints :: "prob_point list \<Rightarrow> double \<Rightarrow> prob_point list" where
  "includedPoints probDist conf =
     collectPoints (targetProb probDist conf) (Finite 0) (sortedByProb probDist)"

text \<open>
  The loop over the included points sorted by \<open>cal_BP\<close>: \<open>start\<close> and \<open>prev\<close> are the
  loop's variables, the list holds the points still to visit, and the result lists the
  intervals in the order they are pushed.
\<close>

fun contiguousIntervals :: "prob_point \<Rightarrow> prob_point \<Rightarrow> prob_point list \<Rightarrow> interval list" where
  "contiguousIntervals start prev [] = [\<lparr>imin = cal_BP start, imax = cal_BP prev\<rparr>]"
| "contiguousIntervals start prev (cur # rest) =
     (if cal_BP cur - cal_BP prev > 1
      then \<lparr>imin = cal_BP start, imax = cal_BP prev\<rparr> # contiguousIntervals cur cur rest
      else contiguousIntervals start cur rest)"

definition findHPD :: "prob_point js_array \<Rightarrow> double \<Rightarrow> warning list \<times> interval list" where
  "findHPD probDist conf =
     (case probDist of
        NotAnArray \<Rightarrow> ([InvalidDistribution], [])
      | Array [] \<Rightarrow> ([InvalidDistribution], [])
      | Array (p # ps) \<Rightarrow>
          let warnings = (if invalidConf conf then [InvalidConfidence conf] else []);
              included = includedPoints (p # ps) conf
          in if included = [] then (warnings, [])
             else
               (case sort_key cal_BP included of
                  [] \<Rightarrow> (warnings, [])
                | start # rest \<Rightarrow> (warnings, contiguousIntervals start start rest)))"

subsection \<open>calculateProbability\<close>

text \<open>
  For \<open>totalError = 0\<close> the source divides by zero; \<open>calibrateDate\<close> only calls it with
  a positive measurement error, where \<open>totalError\<close> is positive.
\<close>

definition calculateProbability :: "real \<Rightarrow> real \<Rightarrow> real \<Rightarrow> real \<Rightarrow> real" where
  "calculateProbability c14Age c14Error curveC14BP curveError =
     (let totalError = sqrt (c14Error ^ 2 + curveError ^ 2);
          deviation = c14Age - curveC14BP
      in exp (- 0.5 * (deviation / totalError) ^ 2) / (totalError * sqrt (2 * pi)))"

subsection \<open>Numbers that may be infinite\<close>

text \<open>
  \<open>Math.min()\<close> of no arguments is \<open>Infinity\<close> and \<open>Math.max()\<close> is \<open>-Infinity\<close>, so
  the bounds of the evaluated range are numbers extended by the two infinities.
\<close>

datatype xreal = NegInf | Fin real | PosInf

fun xle :: "xreal \<Rightarrow> xreal \<Rightarrow> bool" where
  "xle NegInf _ = True"
| "xle _ PosInf = True"
| "xle (Fin a) (Fin b) = (a \<le> b)"
| "xle _ _ = False"

definition xmax :: "xreal \<Rightarrow> xreal \<Rightarrow> xreal" where
  "xmax a b = (if xle a b then b else a)"

definition xmin :: "xreal \<Rightarrow> xreal \<Rightarrow> xreal" where
  "xmin a b = (if xle a b then a else b)"

text \<open>Adding a finite number.\<close>

fun xadd :: "xreal \<Rightarrow> real \<Rightarrow> xreal" where
  "xadd (Fin a) d = Fin (a + d)"
| "xadd NegInf d = NegInf"
| "xadd PosInf d = PosInf"

definition math_min :: "real list \<Rightarrow> xreal" where
  "math_min xs = foldr (\<lambda>a m. xmin (Fin a) m) xs PosInf"

definition math_max :: "real list \<Rightarrow> xreal" where
  "math_max xs = foldr (\<lambda>a m. xmax (Fin a) m) xs NegInf"

text \<open>An object \<open>{ min, max }\<close> built from \<open>Math.min\<close> and \<open>Math.max\<close>.\<close>

record xrange =
  range_min :: xreal
  range_max :: xreal

subsection \<open>createUniformDistribution\<close>

function createUniformDistribution_loop ::
  "curve_point list \<Rightarrow> real \<Rightarrow> real \<Rightarrow> js_error + curve_point list" where
  "createUniformDistribution_loop curveData calBP endYear =
     (if calBP \<le> endYear then
        (case getCurveValueAt calBP curveData of
           Inl e \<Rightarrow> Inl e
         | Inr v \<Rightarrow>
             (case createUniformDistribution_loop curveData (calBP + 1) endYear of
                Inl e \<Rightarrow> Inl e
              | Inr rest \<Rightarrow>
                  Inr (\<lparr>cal_BP = calBP, c14_BP = lookup_c14_BP v, error = lookup_error v\<rparr> # rest)))
      else Inr [])"
  by pat_completeness auto
termination
  by (relation "measure (\<lambda>(curveData, calBP, endYear). nat (\<lfloor>endYear - calBP\<rfloor> + 1))")
     (auto simp: nat_less_iff, linarith)

declare createUniformDistribution_loop.simps [simp del]

text \<open>
  The \<open>for\<close> loop runs from \<open>startYear\<close> while \<open>calBP <= endYear\<close>. When the condition
  fails at once the result is empty; between finite bounds the loop above runs; in the
  remaining cases \<open>calBP++\<close> never makes the condition false and the function does not
  return (\<open>None\<close>).
\<close>

definition createUniformDistribution ::
  "curve_point list \<Rightarrow> xreal \<Rightarrow> xreal \<Rightarrow> (js_error + curve_point list) option" where
  "createUniformDistribution curveData startYear endYear =
     (if \<not> xle startYear endYear then Some (Inr [])
      else
        (case (startYear, endYear) of
           (Fin s, Fin e) \<Rightarrow> Some (createUniformDistribution_loop curveData s e)
         | _ \<Rightarrow> None))"

subsection \<open>findCalendarRangeByC14BP\<close>

text \<open>\<open>xs.slice(start, end)\<close>, with the run time's treatment of negative and large indices.\<close>

definition js_slice :: "'a list \<Rightarrow> int \<Rightarrow> int \<Rightarrow> 'a list" where
  "js_slice xs start end' =
     (let n = int (length xs);
          s = (if start < 0 then max (n + start) 0 else min start n);
          e = (if end' < 0 then max (n + end') 0 else min end' n)
      in take (nat (e - s)) (drop (nat s) xs))"

text \<open>The first binary search; the last argument is \<open>minIndex\<close>.\<close>

function minIndex_loop ::
  "curve_point list \<Rightarrow> real \<Rightarrow> int \<Rightarrow> int \<Rightarrow> int \<Rightarrow> js_error + int" where
  "minIndex_loop c14SortedCurve minC14 low high minIndex =
     (if low \<le> high then
        (let mid = (low + high) div 2 in
         case at_index c14SortedCurve mid of
           None \<Rightarrow> Inl TypeError
         | Some m \<Rightarrow>
             if c14_BP m < minC14
             then minIndex_loop c14SortedCurve minC14 (mid + 1) high minIndex
             else minIndex_loop c14SortedCurve minC14 low (mid - 1) mid)
      else Inr minIndex)"
  by pat_completeness auto
termination
  by (relation "measure (\<lambda>(c, m, low, high, i). nat (high - low + 1))") auto

declare minIndex_loop.simps [simp del]

text \<open>The second binary search; the last argument is \<open>maxIndex\<close>.\<close>

function maxIndex_loop ::
  "curve_point list \<Rightarrow> real \<Rightarrow> int \<Rightarrow> int \<Rightarrow> int \<Rightarrow> js_error + int" where
  "maxIndex_loop c14SortedCurve maxC14 low high maxIndex =
     (if low \<le> high then
        (let mid = (low + high) div 2 in
         case at_index c14SortedCurve mid of
           None \<Rightarrow> Inl TypeError
         | Some m \<Rightarrow>
             if c14_BP m \<le> maxC14
             then maxIndex_loop c14SortedCurve maxC14 (mid + 1) high mid
             else maxIndex_loop c14SortedCurve maxC14 low (mid - 1) maxIndex)
      else Inr maxIndex)"
  by pat_completeness auto
termination
  by (relation "measure (\<lambda>(c, m, low, high, i). nat (high - low + 1))") auto

declare maxIndex_loop.simps [simp del]

definition findCalendarRangeByC14BP ::
  "curve_point list \<Rightarrow> real \<Rightarrow> real \<Rightarrow> js_error + xrange" where
  "findCalendarRangeByC14BP curveData c14Age uncertainty =
     (let c14SortedCurve = sort_key c14_BP curveData;
          searchRange = 5 * uncertainty;
          minC14 = c14Age - searchRange;
          maxC14 = c14Age + searchRange
      in case minIndex_loop c14SortedCurve minC14 0 (int (length c14SortedCurve) - 1) 0 of
           Inl e \<Rightarrow> Inl e
         | Inr minIndex \<Rightarrow>
             (case maxIndex_loop c14SortedCurve maxC14 0 (int (length c14SortedCurve) - 1)
                     (int (length c14SortedCurve) - 1) of
                Inl e \<Rightarrow> Inl e
              | Inr maxIndex \<Rightarrow>
                  let calYears = map cal_BP (js_slice c14SortedCurve minIndex (maxIndex + 1))
                  in Inr \<lparr>range_min = math_min calYears, range_max = math_max calYears\<rparr>))"

subsection \<open>calibrateDate\<close>

text \<open>
  The curve data provider (\<open>data-loader\<close>): what \<open>getCalibrationData()\<close> returns
  (\<open>None\<close> for \<open>null\<close>) and how \<open>await loadCalibrationData()\<close> ends (\<open>Inl\<close> the message of
  the error it rejects with). A curve set maps a curve type to the value stored under that
  key, if any.
\<close>

type_synonym curve_set = "string \<rightharpoonup> curve_point js_array"

record provider =
  getCalibrationData :: "curve_set option"
  loadCalibrationData :: "string + curve_set"

definition CURVE_TYPES :: "string list" where
  "CURVE_TYPES = [''IntCal20'', ''SHCal20'', ''Marine20'']"

text \<open>
  \<open>CURVE_METADATA\<close>, with the \<open>name\<close> and \<open>fullName\<close> of each entry (the citation and
  description texts are left out).
\<close>

record curve_metadata =
  name :: string
  fullName :: string

definition CURVE_METADATA :: "string \<rightharpoonup> curve_metadata" where
  "CURVE_METADATA =
     [''IntCal20'' \<mapsto> \<lparr>name = ''IntCal20'', fullName = ''IntCal20 Northern Hemisphere Atmospheric''\<rparr>,
      ''SHCal20'' \<mapsto> \<lparr>name = ''SHCal20'', fullName = ''SHCal20 Southern Hemisphere Atmospheric''\<rparr>,
      ''Marine20'' \<mapsto> \<lparr>name = ''Marine20'', fullName = ''Marine20 Marine Calibration''\<rparr>]"

text \<open>\<open>typeof v === 'number' && !isNaN(v)\<close>\<close>

fun as_number :: "jsval \<Rightarrow> real option" where
  "as_number (Num r) = Some r"
| "as_number NaN = None"
| "as_number NotNumber = None"

text \<open>The three input checks, in the source's order.\<close>

definition validateInputs :: "jsval \<Rightarrow> jsval \<Rightarrow> jsval \<Rightarrow> js_error + real \<times> real \<times> real" where
  "validateInputs c14_age uncertainty reservoir_correction =
     (case as_number c14_age of
        None \<Rightarrow> Inl (InvalidRadiocarbonAge c14_age)
      | Some a \<Rightarrow>
          if a < 0 \<or> a > 100000 then Inl (InvalidRadiocarbonAge c14_age)
          else
            (case as_number uncertainty of
               None \<Rightarrow> Inl (InvalidUncertainty uncertainty)
             | Some u \<Rightarrow>
                 if u \<le> 0 then Inl (InvalidUncertainty uncertainty)
                 else
                   (case as_number reservoir_correction of
                      None \<Rightarrow> Inl (InvalidReservoirCorrection reservoir_correction)
                    | Some r \<Rightarrow> Inr (a, u, r))))"

text \<open>
  The \<open>switch\<close> on the search mode and the clamp to the curve that follows it: the pair
  \<open>(minCalBP, maxCalBP)\<close> passed to \<open>createUniformDistribution\<close>.
\<close>

definition calendarRange ::
  "string \<Rightarrow> curve_point list \<Rightarrow> real \<Rightarrow> real \<Rightarrow> js_error + xreal \<times> xreal" where
  "calendarRange search_mode curveData corrected_age uncertainty =
     (case curveData of
        [] \<Rightarrow> Inl TypeError
      | first # _ \<Rightarrow>
          (case (if search_mode = ''c14_bp'' then
                   (case findCalendarRangeByC14BP curveData corrected_age uncertainty of
                      Inl e \<Rightarrow> Inl e
                    | Inr calRange \<Rightarrow>
                        Inr (xmax (Fin 0) (xadd (range_min calRange) (- 500)),
                             xadd (range_max calRange) 500))
                 else if search_mode = ''full_curve'' then
                   Inr (Fin (cal_BP first), Fin (cal_BP (last curveData)))
                 else Inr (Fin 0, Fin 12000)) of
             Inl e \<Rightarrow> Inl e
           | Inr (minCalBP, maxCalBP) \<Rightarrow>
               Inr (xmax minCalBP (Fin (cal_BP first)),
                    xmin maxCalBP (Fin (cal_BP (last curveData))))))"

text \<open>The result object.\<close>

record calibration_input =
  radiocarbon_age :: real
  uncertainty :: real
  reservoir_correction :: real
  curve :: string
  search_mode :: string

record xy_point =
  px :: real
  py :: real

record calibration_result =
  input :: calibration_input
  calibrated_years_BP :: real
  calendar_year :: real
  hpd68_ranges :: "interval list"
  hpd95_ranges :: "interval list"
  range_1sigma :: xrange
  range_2sigma :: xrange
  distribution :: "xy_point list"
  curveMetadata :: "curve_metadata option"

text \<open>
  A call either does not return (\<open>None\<close>) or ends with the warnings it logged and an
  error or a result.
\<close>

type_synonym outcome = "(warning list \<times> (js_error + calibration_result)) option"

text \<open>
  The probability of each calendar year of the uniform curve, and the normalization by
  the total, over the reals. The source does not guard the division: the total is zero
  for an empty list, and in binary64 also when every density underflows to zero (an age
  far from every value of the curve), where each quotient is \<open>NaN\<close>. A real density is
  never zero, so the model does not cover the second case, and nothing below is derived
  from the positive total.
\<close>

definition normalizeProbabilities :: "real \<Rightarrow> real \<Rightarrow> curve_point list \<Rightarrow> prob_point list" where
  "normalizeProbabilities corrected_age uncert uniformCurve =
     (let probabilities =
            map (\<lambda>point. \<lparr>cal_BP = cal_BP point,
                          probability = calculateProbability corrected_age uncert
                                          (c14_BP point) (error point)\<rparr>) uniformCurve;
          totalProbability = foldl (\<lambda>sum p. sum + probability p) 0 probabilities
      in map (\<lambda>p. \<lparr>cal_BP = cal_BP p, probability = probability p / totalProbability\<rparr>)
           probabilities)"

text \<open>
  The mode, the two HPD interval sets, the distribution for the chart and the result
  object. \<open>modePoint\<close> is \<open>undefined\<close> for an empty distribution, and reading its
  \<open>cal_BP\<close> in the object literal then raises a \<open>TypeError\<close>, after both \<open>findHPD\<close>
  calls have logged their warnings.
\<close>

definition assembleResult ::
  "calibration_input \<Rightarrow> prob_point list \<Rightarrow> warning list \<times> (js_error + calibration_result)" where
  "assembleResult echoed normalizedProbabilities =
     (let modePoint = (case sort_key (\<lambda>p. - probability p) normalizedProbabilities of
                         [] \<Rightarrow> None | m # _ \<Rightarrow> Some m);
          hpd68 = findHPD (Array normalizedProbabilities) (rnd 0.682);
          hpd95 = findHPD (Array normalizedProbabilities) (rnd 0.954);
          distribution' =
            sort_key px (map (\<lambda>p. \<lparr>px = cal_BP p, py = probability p\<rparr>) normalizedProbabilities)
      in case modePoint of
           None \<Rightarrow> (fst hpd68 @ fst hpd95, Inl TypeError)
         | Some m \<Rightarrow>
             (fst hpd68 @ fst hpd95,
              Inr \<lparr>input = echoed,
                   calibrated_years_BP = cal_BP m,
                   calendar_year = 1950 - cal_BP m,
                   hpd68_ranges = snd hpd68,
                   hpd95_ranges = snd hpd95,
                   range_1sigma = \<lparr>range_min = math_min (map imin (snd hpd68)),
                                   range_max = math_max (map imax (snd hpd68))\<rparr>,
                   range_2sigma = \<lparr>range_min = math_min (map imin (snd hpd95)),
                                   range_max = math_max (map imax (snd hpd95))\<rparr>,
                   distribution = distribution',
                   curveMetadata = CURVE_METADATA (curve echoed)\<rparr>))"

text \<open>The computation on the validated numbers and the selected curve.\<close>

definition calibrateCurve ::
  "real \<Rightarrow> real \<Rightarrow> real \<Rightarrow> string \<Rightarrow> string \<Rightarrow> curve_point list \<Rightarrow> outcome" where
  "calibrateCurve c14_age uncert reservoir curveType mode curveData =
     (let corrected_age = c14_age - reservoir in
      case calendarRange mode curveData corrected_age uncert of
        Inl e \<Rightarrow> Some ([], Inl e)
      | Inr (minCalBP, maxCalBP) \<Rightarrow>
          (case createUniformDistribution curveData minCalBP maxCalBP of
             None \<Rightarrow> None
           | Some (Inl e) \<Rightarrow> Some ([], Inl e)
           | Some (Inr uniformCurve) \<Rightarrow>
               Some (assembleResult
                       \<lparr>radiocarbon_age = c14_age, uncertainty = uncert,
                        reservoir_correction = reservoir, curve = curveType,
                        search_mode = mode\<rparr>
                       (normalizeProbabilities corrected_age uncert uniformCurve))))"

text \<open>
  \<open>calibrateDate\<close>: validation, the fallback to IntCal20 for an unknown curve type,
  the curve set from the provider, the check of the requested curve, and the computation.
  \<open>reservoir_correction\<close>, \<open>curveType\<close> and \<open>search_mode\<close> are the arguments after the
  defaults (\<open>0\<close>, \<open>IntCal20\<close>, \<open>c14_bp\<close>) have replaced omitted ones.
\<close>

definition calibrateDate ::
  "jsval \<Rightarrow> jsval \<Rightarrow> jsval \<Rightarrow> string \<Rightarrow> string \<Rightarrow> provider \<Rightarrow> outcome" where
  "calibrateDate c14_age uncert reservoir curveType mode prov =
     (case validateInputs c14_age uncert reservoir of
        Inl e \<Rightarrow> Some ([], Inl e)
      | Inr (a, u, r) \<Rightarrow>
          let warnings = (if curveType \<in> set CURVE_TYPES then [] else [InvalidCurveType curveType]);
              curveType' = (if curveType \<in> set CURVE_TYPES then curveType else ''IntCal20'')
          in case (case getCalibrationData prov of
                     Some curves \<Rightarrow> Inr curves
                   | None \<Rightarrow>
                       (case loadCalibrationData prov of
                          Inl message \<Rightarrow> Inl (FailedToLoad message)
                        | Inr curves \<Rightarrow> Inr curves)) of
               Inl e \<Rightarrow> Some (warnings, Inl e)
             | Inr calibrationCurves \<Rightarrow>
                 (case calibrationCurves curveType' of
                    Some (Array (p # ps)) \<Rightarrow>
                      map_option (\<lambda>(ws, res). (warnings @ ws, res))
                        (calibrateCurve a u r curveType' mode (p # ps))
                  | _ \<Rightarrow> Some (warnings, Inl (CurveDataMissing curveType'))))"

text \<open>Applying a change to the result of a call that returned one.\<close>

definition mapResult :: "(calibration_result \<Rightarrow> calibration_result) \<Rightarrow> outcome \<Rightarrow> outcome" where
  "mapResult f = map_option (map_prod id (map_sum id f))"

text \<open>
  A curve whose radiocarbon ages leave a gap around 150, and a provider that has it
  loaded as IntCal20.
\<close>

definition gap_curve :: "curve_point list" where
  "gap_curve = [\<lparr>cal_BP = 0, c14_BP = 100, error = 10\<rparr>, \<lparr>cal_BP = 10, c14_BP = 200, error = 10\<rparr>]"

definition gap_provider :: provider where
  "gap_provider = \<lparr>getCalibrationData = Some [''IntCal20'' \<mapsto> Array gap_curve],
                    loadCalibrationData = Inl []\<rparr>"

text \<open>The curve points whose \<open>c14_BP\<close> lies in the band of five uncertainties around the age.\<close>

definition inBand :: "curve_point list \<Rightarrow> real \<Rightarrow> real \<Rightarrow> curve_point list" where
  "inBand curveData age uncert =
     filter (\<lambda>q. age - 5 * uncert \<le> c14_BP q \<and> c14_BP q \<le> age + 5 * uncert) curveData"

text \<open>
  The padding and the two clamps applied to the calendar years of selected curve points:
  \<open>Math.min\<close> and \<open>Math.max\<close> of the years, 500 years on each side with the lower bound
  not below 0, then the bounds of the curve.
\<close>

definition paddedRange :: "curve_point list \<Rightarrow> curve_point list \<Rightarrow> xreal \<times> xreal" where
  "paddedRange curveData selected =
     (let years = map cal_BP selected
      in (xmax (xmax (Fin 0) (xadd (math_min years) (- 500))) (Fin (cal_BP (hd curveData))),
          xmin (xadd (math_max years) 500) (Fin (cal_BP (last curveData)))))"

text \<open>
  The \<open>c14_bp\<close> range as the specification words it: computed from the curve points in
  the band, whatever the band.
\<close>

definition specC14Range :: "curve_point list \<Rightarrow> real \<Rightarrow> real \<Rightarrow> xreal \<times> xreal" where
  "specC14Range curveData age uncert = paddedRange curveData (inBand curveData age uncert)"

text \<open>A curve spread over five thousand calendar years.\<close>

definition spread_curve :: "curve_point list" where
  "spread_curve =
     [\<lparr>cal_BP = 0, c14_BP = 100, error = 10\<rparr>,
      \<lparr>cal_BP = 1000, c14_BP = 200, error = 10\<rparr>,
      \<lparr>cal_BP = 5000, c14_BP = 300, error = 10\<rparr>]"

subsection \<open>Notions used to state the properties of findHPD\<close>

text \<open>A calendar year is covered by a list of intervals when one of them contains it.\<close>

definition hpdCovers :: "interval list \<Rightarrow> real \<Rightarrow> bool" where
  "hpdCovers ivs y = list_ex (\<lambda>iv. imin iv \<le> y \<and> y \<le> imax iv) ivs"

text \<open>
  Distributions for \<open>findHPD\<close> whose probabilities are binary64 numbers: one year apart
  with a single peak; a second point far below the spacing of the numbers at the first;
  a total that is rounded; two points on the same year; a point on a half year.
\<close>

definition peak :: "prob_point list" where
  "peak =
     [\<lparr>cal_BP = 100, probability = 1 / 32\<rparr>,
      \<lparr>cal_BP = 101, probability = 1 / 8\<rparr>,
      \<lparr>cal_BP = 102, probability = 1 / 2\<rparr>,
      \<lparr>cal_BP = 103, probability = 1 / 4\<rparr>,
      \<lparr>cal_BP = 104, probability = 1 / 16\<rparr>,
      \<lparr>cal_BP = 105, probability = 1 / 32\<rparr>]"

definition faint_tail :: "prob_point list" where
  "faint_tail =
     [\<lparr>cal_BP = 100, probability = 1\<rparr>,
      \<lparr>cal_BP = 105, probability = 1 / 2 ^ 60\<rparr>]"




section \<open>Properties\<close>

subsection \<open>interpolate\<close>

text \<open>
  C8: \<open>interpolate\<close> returns the lower point's values when the two calendar ages
  coincide, and otherwise both values interpolated with the factor
  \<open>(target - lower.cal_BP) / (upper.cal_BP - lower.cal_BP)\<close>; between the points
  \<open>(200, 10)\<close> at 100 and \<open>(300, 20)\<close> at 200 it yields \<open>(250, 15)\<close> at 150, and at the
  calendar age of an endpoint it returns that endpoint's values.
\<close>

theorem interpolate_spec:
  "(cal_BP lo = cal_BP up \<longrightarrow>
      interpolate t lo up = \<lparr>cv_c14_BP = c14_BP lo, cv_error = error lo\<rparr>) \<and>
   (cal_BP lo \<noteq> cal_BP up \<longrightarrow>
      interpolate t lo up =
        \<lparr>cv_c14_BP = c14_BP lo + (t - cal_BP lo) / (cal_BP up - cal_BP lo) * (c14_BP up - c14_BP lo),
         cv_error = error lo + (t - cal_BP lo) / (cal_BP up - cal_BP lo) * (error up - error lo)\<rparr>) \<and>
   interpolate 150 \<lparr>cal_BP = 100, c14_BP = 200, error = 10\<rparr> \<lparr>cal_BP = 200, c14_BP = 300, error = 20\<rparr>
     = \<lparr>cv_c14_BP = 250, cv_error = 15\<rparr> \<and>
   interpolate 100 \<lparr>cal_BP = 100, c14_BP = 200, error = 10\<rparr> \<lparr>cal_BP = 200, c14_BP = 300, error = 20\<rparr>
     = \<lparr>cv_c14_BP = 200, cv_error = 10\<rparr> \<and>
   interpolate 200 \<lparr>cal_BP = 100, c14_BP = 200, error = 10\<rparr> \<lparr>cal_BP = 200, c14_BP = 300, error = 20\<rparr>
     = \<lparr>cv_c14_BP = 300, cv_error = 20\<rparr> \<and>
   interpolate (cal_BP lo) lo up = \<lparr>cv_c14_BP = c14_BP lo, cv_error = error lo\<rparr> \<and>
   (cal_BP lo \<noteq> cal_BP up \<longrightarrow>
      interpolate (cal_BP up) lo up = \<lparr>cv_c14_BP = c14_BP up, cv_error = error up\<rparr>)"
  by (simp add: interpolate_def Let_def)

theorem interpolate_spec_witness:
  "interpolate 125 \<lparr>cal_BP = 100, c14_BP = 200, error = 10\<rparr> \<lparr>cal_BP = 200, c14_BP = 300, error = 20\<rparr>
     = \<lparr>cv_c14_BP = 225, cv_error = 25 / 2\<rparr> \<and>
   interpolate 100 \<lparr>cal_BP = 100, c14_BP = 200, error = 10\<rparr> \<lparr>cal_BP = 100, c14_BP = 300, error = 20\<rparr>
     = \<lparr>cv_c14_BP = 200, cv_error = 10\<rparr>"
  using interpolate_spec [of "\<lparr>cal_BP = 100, c14_BP = 200, error = 10\<rparr>"
                             "\<lparr>cal_BP = 200, c14_BP = 300, error = 20\<rparr>" 125]
        interpolate_spec [of "\<lparr>cal_BP = 100, c14_BP = 200, error = 10\<rparr>"
                             "\<lparr>cal_BP = 100, c14_BP = 300, error = 20\<rparr>" 100]
  by simp

subsection \<open>getCurveValueAt\<close>

lemma at_index_Some:
  "0 \<le> i \<Longrightarrow> i < int (length xs) \<Longrightarrow> at_index xs i = Some (xs ! nat i)"
  by (simp add: at_index_def)

lemma sorted_keys_le:
  "sorted (map cal_BP xs) \<Longrightarrow> i \<le> j \<Longrightarrow> j < length xs \<Longrightarrow> cal_BP (xs ! i) \<le> cal_BP (xs ! j)"
  using sorted_nth_mono [of "map cal_BP xs" i j] by simp

text \<open>Invariant of the search: everything left of low is below, everything right of high above.\<close>

lemma getCurveValueAt_loop_sorted:
  assumes "sorted (map cal_BP xs)"
    and "0 \<le> low" and "high < int (length xs)" and "low \<le> high + 1"
    and "\<forall>i. 0 \<le> i \<and> i < low \<longrightarrow> cal_BP (xs ! nat i) < t"
    and "\<forall>i. high < i \<and> i < int (length xs) \<longrightarrow> t < cal_BP (xs ! nat i)"
    and "xs \<noteq> []" and "cal_BP (xs ! 0) < t" and "t < cal_BP (xs ! (length xs - 1))"
  shows "(\<exists>m \<in> set xs. cal_BP m = t \<and> getCurveValueAt_loop t xs low high = Inr (Point m)) \<or>
         (\<exists>h. Suc h < length xs \<and> cal_BP (xs ! h) < t \<and> t < cal_BP (xs ! Suc h) \<and>
              getCurveValueAt_loop t xs low high =
                Inr (Interpolated (interpolate t (xs ! h) (xs ! Suc h))))"
  using assms
proof (induction t xs low high rule: getCurveValueAt_loop.induct)
  case (1 calBP curveData low high)
  let ?n = "int (length curveData)"
  show ?case
  proof (cases "low \<le> high")
    case False
    with "1.prems" have lh: "low = high + 1" by simp
    have h0: "0 \<le> high"
    proof (rule ccontr)
      assume "\<not> 0 \<le> high"
      then have "high < 0 \<and> 0 < ?n" using "1.prems"(7) by simp
      then have "calBP < cal_BP (curveData ! nat 0)" using "1.prems"(6) by blast
      then show False using "1.prems"(8) by simp
    qed
    have hn: "high + 1 < ?n"
    proof (rule ccontr)
      assume "\<not> high + 1 < ?n"
      then have "0 \<le> ?n - 1 \<and> ?n - 1 < low" using lh "1.prems"(7) by (cases curveData) simp_all
      then have "cal_BP (curveData ! nat (?n - 1)) < calBP" using "1.prems"(5) by blast
      moreover have "nat (?n - 1) = length curveData - 1" by simp
      ultimately show False using "1.prems"(9) by simp
    qed
    have a: "at_index curveData high = Some (curveData ! nat high)"
      using h0 hn by (simp add: at_index_def)
    have b: "at_index curveData low = Some (curveData ! nat low)"
      using h0 hn lh by (simp add: at_index_def)
    have nl: "nat low = Suc (nat high)" using lh h0 by simp
    have below: "cal_BP (curveData ! nat high) < calBP"
      using "1.prems"(5) h0 lh by simp
    have above: "calBP < cal_BP (curveData ! nat low)"
      using "1.prems"(6) hn lh by simp
    have "getCurveValueAt_loop calBP curveData low high =
            Inr (Interpolated (interpolate calBP (curveData ! nat high) (curveData ! Suc (nat high))))"
      using False a b nl by (subst getCurveValueAt_loop.simps) simp
    moreover have "Suc (nat high) < length curveData" using hn h0 by linarith
    ultimately show ?thesis using below above nl by auto
  next
    case True
    define mid where "mid = (low + high) div 2"
    have mid_lo: "low \<le> mid" and mid_hi: "mid \<le> high"
      using True by (simp_all add: mid_def)
    have m0: "0 \<le> mid" and mn: "mid < ?n" using mid_lo mid_hi "1.prems"(2,3) by simp_all
    have am: "at_index curveData mid = Some (curveData ! nat mid)"
      using m0 mn by (simp add: at_index_def)
    let ?m = "curveData ! nat mid"
    consider (lt) "cal_BP ?m < calBP" | (gt) "cal_BP ?m > calBP" | (eq) "cal_BP ?m = calBP"
      by linarith
    then show ?thesis
    proof cases
      case lt
      have step: "getCurveValueAt_loop calBP curveData low high =
                  getCurveValueAt_loop calBP curveData (mid + 1) high"
        using True am lt by (subst getCurveValueAt_loop.simps) (simp add: mid_def Let_def)
      have inv: "\<forall>i. 0 \<le> i \<and> i < mid + 1 \<longrightarrow> cal_BP (curveData ! nat i) < calBP"
      proof (intro allI impI)
        fix i assume i: "0 \<le> i \<and> i < mid + 1"
        then have "nat i \<le> nat mid" by linarith
        moreover have "nat mid < length curveData" using m0 mn by simp
        ultimately have "cal_BP (curveData ! nat i) \<le> cal_BP ?m"
          using sorted_keys_le [OF "1.prems"(1)] by blast
        then show "cal_BP (curveData ! nat i) < calBP" using lt by simp
      qed
      have "(\<exists>m \<in> set curveData. cal_BP m = calBP \<and>
                getCurveValueAt_loop calBP curveData (mid + 1) high = Inr (Point m)) \<or>
            (\<exists>h. Suc h < length curveData \<and> cal_BP (curveData ! h) < calBP \<and>
                calBP < cal_BP (curveData ! Suc h) \<and>
                getCurveValueAt_loop calBP curveData (mid + 1) high =
                  Inr (Interpolated (interpolate calBP (curveData ! h) (curveData ! Suc h))))"
      proof (rule "1.IH"(1) [OF True mid_def am lt "1.prems"(1) _ _ _ _ _ "1.prems"(7,8,9)])
        show "0 \<le> mid + 1" using m0 by simp
        show "high < ?n" by (rule "1.prems"(3))
        show "mid + 1 \<le> high + 1" using mid_hi by simp
        show "\<forall>i. 0 \<le> i \<and> i < mid + 1 \<longrightarrow> cal_BP (curveData ! nat i) < calBP" by (rule inv)
        show "\<forall>i. high < i \<and> i < ?n \<longrightarrow> calBP < cal_BP (curveData ! nat i)"
          by (rule "1.prems"(6))
      qed
      then show ?thesis by (simp only: step)
    next
      case gt
      have ngt: "\<not> cal_BP ?m < calBP" using gt by simp
      have step: "getCurveValueAt_loop calBP curveData low high =
                  getCurveValueAt_loop calBP curveData low (mid - 1)"
        using True am gt by (subst getCurveValueAt_loop.simps) (simp add: mid_def Let_def)
      have inv: "\<forall>i. mid - 1 < i \<and> i < ?n \<longrightarrow> calBP < cal_BP (curveData ! nat i)"
      proof (intro allI impI)
        fix i assume i: "mid - 1 < i \<and> i < ?n"
        then have "nat mid \<le> nat i" using m0 by linarith
        moreover have "nat i < length curveData" using i m0 by linarith
        ultimately have "cal_BP ?m \<le> cal_BP (curveData ! nat i)"
          using sorted_keys_le [OF "1.prems"(1)] by blast
        then show "calBP < cal_BP (curveData ! nat i)" using gt by simp
      qed
      have "(\<exists>m \<in> set curveData. cal_BP m = calBP \<and>
                getCurveValueAt_loop calBP curveData low (mid - 1) = Inr (Point m)) \<or>
            (\<exists>h. Suc h < length curveData \<and> cal_BP (curveData ! h) < calBP \<and>
                calBP < cal_BP (curveData ! Suc h) \<and>
                getCurveValueAt_loop calBP curveData low (mid - 1) =
                  Inr (Interpolated (interpolate calBP (curveData ! h) (curveData ! Suc h))))"
      proof (rule "1.IH"(2) [OF True mid_def am ngt gt "1.prems"(1) _ _ _ _ _ "1.prems"(7,8,9)])
        show "0 \<le> low" by (rule "1.prems"(2))
        show "mid - 1 < ?n" using mn by simp
        show "low \<le> mid - 1 + 1" using mid_lo by simp
        show "\<forall>i. 0 \<le> i \<and> i < low \<longrightarrow> cal_BP (curveData ! nat i) < calBP"
          by (rule "1.prems"(5))
        show "\<forall>i. mid - 1 < i \<and> i < ?n \<longrightarrow> calBP < cal_BP (curveData ! nat i)" by (rule inv)
      qed
      then show ?thesis by (simp only: step)
    next
      case eq
      have "getCurveValueAt_loop calBP curveData low high = Inr (Point ?m)"
        using True am eq by (subst getCurveValueAt_loop.simps) (simp add: mid_def Let_def)
      moreover have "?m \<in> set curveData" using m0 mn by simp
      ultimately show ?thesis using eq by blast
    qed
  qed
qed

lemma filter_below_above:
  assumes "sorted (map cal_BP xs)" and "Suc h < length xs"
    and "cal_BP (xs ! h) < t" and "t < cal_BP (xs ! Suc h)"
  shows "last (filter (\<lambda>p. cal_BP p < t) xs) = xs ! h"
    and "hd (filter (\<lambda>p. t < cal_BP p) xs) = xs ! Suc h"
    and "\<forall>p \<in> set xs. cal_BP p \<noteq> t"
proof -
  have split: "xs = take (Suc h) xs @ drop (Suc h) xs" by simp
  have lo: "\<forall>p \<in> set (take (Suc h) xs). cal_BP p < t"
  proof
    fix p assume "p \<in> set (take (Suc h) xs)"
    then obtain i where i: "i < Suc h" "p = xs ! i"
      using assms(2) by (auto simp: in_set_conv_nth)
    then have "cal_BP p \<le> cal_BP (xs ! h)"
      using sorted_keys_le [OF assms(1), of i h] assms(2) by simp
    then show "cal_BP p < t" using assms(3) by simp
  qed
  have hi: "\<forall>p \<in> set (drop (Suc h) xs). t < cal_BP p"
  proof
    fix p assume "p \<in> set (drop (Suc h) xs)"
    then obtain j where "j < length (drop (Suc h) xs)" "drop (Suc h) xs ! j = p"
      unfolding in_set_conv_nth by blast
    then have "Suc h + j < length xs \<and> p = xs ! (Suc h + j)" by auto
    then obtain i where i: "Suc h + i < length xs" "p = xs ! (Suc h + i)" by blast
    then have "cal_BP (xs ! Suc h) \<le> cal_BP p"
      using sorted_keys_le [OF assms(1), of "Suc h" "Suc h + i"] by simp
    then show "t < cal_BP p" using assms(4) by simp
  qed
  have fsplit: "filter P xs = filter P (take (Suc h) xs) @ filter P (drop (Suc h) xs)" for P
    by (metis append_take_drop_id filter_append)
  have f1: "filter (\<lambda>p. cal_BP p < t) xs = take (Suc h) xs"
  proof -
    have "filter (\<lambda>p. cal_BP p < t) (take (Suc h) xs) = take (Suc h) xs"
      using lo by (simp add: filter_id_conv)
    moreover have "filter (\<lambda>p. cal_BP p < t) (drop (Suc h) xs) = []"
      using hi by (fastforce simp: filter_empty_conv)
    ultimately show ?thesis by (simp add: fsplit [of "\<lambda>p. cal_BP p < t"])
  qed
  have f2: "filter (\<lambda>p. t < cal_BP p) xs = drop (Suc h) xs"
  proof -
    have "filter (\<lambda>p. t < cal_BP p) (drop (Suc h) xs) = drop (Suc h) xs"
      using hi by (simp add: filter_id_conv)
    moreover have "filter (\<lambda>p. t < cal_BP p) (take (Suc h) xs) = []"
      using lo by (fastforce simp: filter_empty_conv)
    ultimately show ?thesis by (simp add: fsplit [of "\<lambda>p. t < cal_BP p"])
  qed
  show "last (filter (\<lambda>p. cal_BP p < t) xs) = xs ! h"
    using assms(2) by (simp add: f1 last_conv_nth take_Suc_conv_app_nth)
  show "hd (filter (\<lambda>p. t < cal_BP p) xs) = xs ! Suc h"
    using assms(2) by (simp add: f2 hd_drop_conv_nth)
  have "set xs = set (take (Suc h) xs) \<union> set (drop (Suc h) xs)"
    by (metis append_take_drop_id set_append)
  then show "\<forall>p \<in> set xs. cal_BP p \<noteq> t" using lo hi by fastforce
qed

lemma getCurveValueAt_inside:
  assumes "cd \<noteq> []" and "sorted (map cal_BP cd)"
    and "cal_BP (hd cd) < t" and "t < cal_BP (last cd)"
  shows "(\<exists>m \<in> set cd. cal_BP m = t \<and> getCurveValueAt t cd = Inr (Point m)) \<or>
         ((\<forall>p \<in> set cd. cal_BP p \<noteq> t) \<and>
          getCurveValueAt t cd =
            Inr (Interpolated (interpolate t (last (filter (\<lambda>p. cal_BP p < t) cd))
                                             (hd (filter (\<lambda>p. t < cal_BP p) cd)))))"
proof -
  have unfold: "getCurveValueAt t cd =
                  getCurveValueAt_loop t cd 0 (int (length cd) - 1)"
    using assms by (cases cd) (simp_all add: getCurveValueAt_def)
  have first: "cal_BP (cd ! 0) < t" using assms(1,3) by (simp add: hd_conv_nth)
  have lst: "t < cal_BP (cd ! (length cd - 1))" using assms(1,4) by (simp add: last_conv_nth)
  have "(\<exists>m \<in> set cd. cal_BP m = t \<and>
            getCurveValueAt_loop t cd 0 (int (length cd) - 1) = Inr (Point m)) \<or>
        (\<exists>h. Suc h < length cd \<and> cal_BP (cd ! h) < t \<and> t < cal_BP (cd ! Suc h) \<and>
            getCurveValueAt_loop t cd 0 (int (length cd) - 1) =
              Inr (Interpolated (interpolate t (cd ! h) (cd ! Suc h))))"
    by (rule getCurveValueAt_loop_sorted [OF assms(2) _ _ _ _ _ assms(1) first lst]) simp_all
  then show ?thesis
  proof
    assume "\<exists>m \<in> set cd. cal_BP m = t \<and>
              getCurveValueAt_loop t cd 0 (int (length cd) - 1) = Inr (Point m)"
    then show ?thesis by (simp add: unfold)
  next
    assume "\<exists>h. Suc h < length cd \<and> cal_BP (cd ! h) < t \<and> t < cal_BP (cd ! Suc h) \<and>
              getCurveValueAt_loop t cd 0 (int (length cd) - 1) =
                Inr (Interpolated (interpolate t (cd ! h) (cd ! Suc h)))"
    then obtain h where h: "Suc h < length cd" "cal_BP (cd ! h) < t"
        "t < cal_BP (cd ! Suc h)"
        "getCurveValueAt_loop t cd 0 (int (length cd) - 1) =
           Inr (Interpolated (interpolate t (cd ! h) (cd ! Suc h)))"
      by blast
    note fba = filter_below_above [OF assms(2) h(1) h(2) h(3)]
    show ?thesis using fba h(4) by (simp add: unfold)
  qed
qed

lemma strict_keys_inj:
  assumes "sorted_wrt (<) (map cal_BP cd)" and "p \<in> set cd" and "q \<in> set cd"
    and "cal_BP p = cal_BP q"
  shows "p = q"
proof -
  have "distinct (map cal_BP cd)" using assms(1) strict_sorted_iff by blast
  then have "inj_on cal_BP (set cd)" by (simp add: distinct_map)
  then show ?thesis using assms(2,3,4) by (auto dest: inj_onD)
qed

text \<open>
  C7: on a non-empty curve sorted ascending by \<open>cal_BP\<close> (strictly: a curve holds each
  calendar age once), \<open>getCurveValueAt\<close> returns the first point for a \<open>calBP\<close> at or
  below the first point's, the last point for a \<open>calBP\<close> at or above the last point's, the
  curve point with exactly that \<open>cal_BP\<close> when there is one, and otherwise the
  interpolation between the last curve point below \<open>calBP\<close> and the first one above it.
\<close>

theorem getCurveValueAt_spec:
  assumes "cd \<noteq> []" and "sorted_wrt (<) (map cal_BP cd)"
  shows
   "(t \<le> cal_BP (hd cd) \<longrightarrow> getCurveValueAt t cd = Inr (Point (hd cd))) \<and>
    (cal_BP (last cd) \<le> t \<longrightarrow> getCurveValueAt t cd = Inr (Point (last cd))) \<and>
    (\<forall>p \<in> set cd. cal_BP p = t \<longrightarrow> getCurveValueAt t cd = Inr (Point p)) \<and>
    (cal_BP (hd cd) < t \<and> t < cal_BP (last cd) \<and> (\<forall>p \<in> set cd. cal_BP p \<noteq> t) \<longrightarrow>
       getCurveValueAt t cd =
         Inr (Interpolated (interpolate t (last (filter (\<lambda>p. cal_BP p < t) cd))
                                          (hd (filter (\<lambda>p. t < cal_BP p) cd)))))"
proof -
  have srt: "sorted (map cal_BP cd)"
    using assms(2) strict_sorted_iff by blast
  have hd_in: "hd cd \<in> set cd" and last_in: "last cd \<in> set cd"
    using assms(1) by simp_all
  have hd_le: "cal_BP (hd cd) \<le> cal_BP p" if "p \<in> set cd" for p
  proof -
    from that obtain i where "i < length cd" "p = cd ! i" by (auto simp: in_set_conv_nth)
    then show ?thesis
      using sorted_keys_le [OF srt, of 0 i] assms(1) by (simp add: hd_conv_nth)
  qed
  have le_last: "cal_BP p \<le> cal_BP (last cd)" if "p \<in> set cd" for p
  proof -
    from that obtain i where "i < length cd" "p = cd ! i" by (auto simp: in_set_conv_nth)
    then show ?thesis
      using sorted_keys_le [OF srt, of i "length cd - 1"] assms(1) by (simp add: last_conv_nth)
  qed
  have c1: "getCurveValueAt t cd = Inr (Point (hd cd))" if "t \<le> cal_BP (hd cd)"
    using that assms(1) by (cases cd) (simp_all add: getCurveValueAt_def)
  have c2: "getCurveValueAt t cd = Inr (Point (last cd))" if "cal_BP (last cd) \<le> t"
  proof (cases "t \<le> cal_BP (hd cd)")
    case True
    then have "cal_BP (hd cd) = cal_BP (last cd)"
      using that hd_le [OF last_in] by simp
    then have "hd cd = last cd" by (rule strict_keys_inj [OF assms(2) hd_in last_in])
    then show ?thesis using c1 [OF True] by simp
  next
    case False
    then show ?thesis using that assms(1) by (cases cd) (simp_all add: getCurveValueAt_def)
  qed
  have c3: "getCurveValueAt t cd = Inr (Point p)" if "p \<in> set cd" "cal_BP p = t" for p
  proof -
    consider (lo) "t \<le> cal_BP (hd cd)" | (hi) "cal_BP (last cd) \<le> t"
      | (mid) "cal_BP (hd cd) < t" "t < cal_BP (last cd)" by linarith
    then show ?thesis
    proof cases
      case lo
      then have "cal_BP (hd cd) = cal_BP p" using hd_le [OF that(1)] that(2) by simp
      then have "hd cd = p" by (rule strict_keys_inj [OF assms(2) hd_in that(1)])
      then show ?thesis using c1 [OF lo] by simp
    next
      case hi
      then have "cal_BP (last cd) = cal_BP p" using le_last [OF that(1)] that(2) by simp
      then have "last cd = p" by (rule strict_keys_inj [OF assms(2) last_in that(1)])
      then show ?thesis using c2 [OF hi] by simp
    next
      case mid
      from getCurveValueAt_inside [OF assms(1) srt mid] that
      obtain m where m: "m \<in> set cd" "cal_BP m = t" "getCurveValueAt t cd = Inr (Point m)"
        by blast
      then have "m = p" using strict_keys_inj [OF assms(2) m(1) that(1)] that(2) by simp
      then show ?thesis using m(3) by simp
    qed
  qed
  have c4: "getCurveValueAt t cd =
         Inr (Interpolated (interpolate t (last (filter (\<lambda>p. cal_BP p < t) cd))
                                          (hd (filter (\<lambda>p. t < cal_BP p) cd))))"
    if "cal_BP (hd cd) < t" "t < cal_BP (last cd)" "\<forall>p \<in> set cd. cal_BP p \<noteq> t"
    using getCurveValueAt_inside [OF assms(1) srt that(1,2)] that(3) by blast
  show ?thesis using c1 c2 c3 c4 by blast
qed

theorem getCurveValueAt_spec_witness:
  "getCurveValueAt 50 test_curve = Inr (Point \<lparr>cal_BP = 100, c14_BP = 200, error = 10\<rparr>) \<and>
   getCurveValueAt 500 test_curve = Inr (Point \<lparr>cal_BP = 400, c14_BP = 500, error = 25\<rparr>) \<and>
   getCurveValueAt 200 test_curve = Inr (Point \<lparr>cal_BP = 200, c14_BP = 300, error = 15\<rparr>) \<and>
   getCurveValueAt 250 test_curve = Inr (Interpolated \<lparr>cv_c14_BP = 350, cv_error = 35 / 2\<rparr>)"
proof -
  have ne: "test_curve \<noteq> []" by (simp add: test_curve_def)
  have st: "sorted_wrt (<) (map cal_BP test_curve)" by (simp add: test_curve_def)
  show ?thesis
    using getCurveValueAt_spec [OF ne st, of 50] getCurveValueAt_spec [OF ne st, of 500]
      getCurveValueAt_spec [OF ne st, of 200] getCurveValueAt_spec [OF ne st, of 250]
    by (simp add: test_curve_def interpolate_def)
qed

subsection \<open>Rounding at given numbers\<close>

lemma quantum_unit: "1 \<le> a \<Longrightarrow> a < 2 \<Longrightarrow> quantum a = 1 / 2 ^ 52"
  by (subst quantum.simps) (simp add: not_less)

lemma quantum_below: "1 / 2 ^ 1022 \<le> a \<Longrightarrow> a < 1 \<Longrightarrow> quantum a = quantum (2 * a) / 2"
  by (subst quantum.simps) (simp add: not_less)

lemma quantum_above: "2 \<le> a \<Longrightarrow> quantum a = 2 * quantum (a / 2)"
  by (subst quantum.simps) (simp add: not_less)

lemma quantum_zero: "quantum 0 = 1 / 2 ^ 1074"
  by (subst quantum.simps) simp

lemmas rnd_eval =
  rnd_def roundTiesToEven_def Let_def quantum_unit quantum_below quantum_above quantum_zero

text \<open>
  Binary64 numbers round to themselves; \<open>1 + 2 ^ (- 53)\<close> lies halfway between \<open>1\<close> and
  its successor and rounds to \<open>1\<close>, whose significand is even; \<open>1 + 3 * 2 ^ (- 53)\<close> lies
  halfway between the next two numbers and rounds up.
\<close>

lemma rnd_examples:
  "rnd 0 = Finite 0"
  "rnd (- 3) = Finite (- 3)"
  "rnd (1 / 2 ^ 60) = Finite (1 / 2 ^ 60)"
  "rnd (1 + 1 / 2 ^ 52) = Finite (1 + 1 / 2 ^ 52)"
  "rnd (1 + 1 / 2 ^ 53) = Finite 1"
  "rnd (1 + 3 / 2 ^ 53) = Finite (1 + 2 / 2 ^ 52)"
  "rnd (1 + 1 / 2 ^ 60) = Finite 1"
  by (simp_all add: rnd_eval)

text \<open>The decimal literals of the source.\<close>

lemma default_conf: "rnd 0.95 = Finite (8556839292003942 / 2 ^ 53)"
  by (simp add: rnd_eval)

lemma sigma_conf:
  "rnd 0.682 = Finite (6142909891733357 / 2 ^ 53)"
  "rnd 0.954 = Finite (8592868089022906 / 2 ^ 53)"
  by (simp_all add: rnd_eval)

subsection \<open>findHPD: validation\<close>

lemma findHPD_nonempty:
  assumes "ds \<noteq> []"
  shows "findHPD (Array ds) conf =
           ((if invalidConf conf then [InvalidConfidence conf] else []),
            (case sort_key cal_BP (includedPoints ds conf) of
               [] \<Rightarrow> []
             | start # rest \<Rightarrow> contiguousIntervals start start rest))"
proof -
  obtain p ps where ds: "ds = p # ps" using assms by (cases ds) auto
  show ?thesis
    by (cases "includedPoints (p # ps) conf")
       (simp_all add: findHPD_def ds Let_def split: list.splits)
qed

text \<open>
  The range check rejects the numbers outside \<open>(0, 1]\<close> and the two infinities, and
  accepts \<open>NaN\<close>.
\<close>

lemma invalidConf_cases:
  "invalidConf (Finite c) \<longleftrightarrow> c \<le> 0 \<or> 1 < c"
  "invalidConf PlusInfinity"
  "invalidConf MinusInfinity"
  "\<not> invalidConf NotANumber"
  by (auto simp: invalidConf_def dlt_def)

lemma default_conf_valid: "invalidConf (rnd 0.95) = False"
  unfolding default_conf by (simp add: invalidConf_cases)

lemma sigma_conf_valid:
  "invalidConf (rnd 0.682) = False"
  "invalidConf (rnd 0.954) = False"
  unfolding sigma_conf by (simp_all add: invalidConf_cases)

text \<open>
  An empty or non-array input gives no interval, and a rejected confidence gives one
  warning and the intervals of the confidence \<open>0.95\<close>.
\<close>

lemma findHPD_no_distribution:
  "findHPD NotAnArray conf = ([InvalidDistribution], [])"
  "findHPD (Array []) conf = ([InvalidDistribution], [])"
  by (simp_all add: findHPD_def)

lemma findHPD_rejected_confidence:
  assumes "ds \<noteq> []" and "invalidConf conf"
  shows "findHPD (Array ds) conf = ([InvalidConfidence conf], snd (findHPD (Array ds) (rnd 0.95)))"
proof -
  have "usedConf conf = usedConf (rnd 0.95)"
    using assms(2) unfolding usedConf_def default_conf_valid by simp
  then have "includedPoints ds conf = includedPoints ds (rnd 0.95)"
    by (simp add: includedPoints_def targetProb_def)
  then show ?thesis
    unfolding findHPD_nonempty [OF assms(1)] using assms(2) by simp
qed

text \<open>With the confidence \<open>NaN\<close> no comparison with the target holds: every point is included.\<close>

lemma dmul_NaN [simp]: "dmul t NotANumber = NotANumber"
  by (cases t) simp_all

lemma collectPoints_NaN: "collectPoints NotANumber s xs = xs"
  by (induction xs arbitrary: s) simp_all

lemma findHPD_NaN:
  assumes "ds \<noteq> []"
  shows "findHPD (Array ds) NotANumber =
           ([], case sort_key cal_BP (sortedByProb ds) of
                  [] \<Rightarrow> []
                | start # rest \<Rightarrow> contiguousIntervals start start rest)"
proof -
  have "usedConf NotANumber = NotANumber" by (simp add: usedConf_def invalidConf_cases)
  then have "includedPoints ds NotANumber = sortedByProb ds"
    by (simp add: includedPoints_def targetProb_def collectPoints_NaN)
  then show ?thesis
    unfolding findHPD_nonempty [OF assms] by (simp add: invalidConf_cases)
qed

lemma peak_sorted:
  "sortedByProb peak =
     [\<lparr>cal_BP = 102, probability = 1 / 2\<rparr>,
      \<lparr>cal_BP = 103, probability = 1 / 4\<rparr>,
      \<lparr>cal_BP = 101, probability = 1 / 8\<rparr>,
      \<lparr>cal_BP = 104, probability = 1 / 16\<rparr>,
      \<lparr>cal_BP = 100, probability = 1 / 32\<rparr>,
      \<lparr>cal_BP = 105, probability = 1 / 32\<rparr>]"
  by (simp add: sortedByProb_def peak_def)

lemma peak_total: "totalProb peak = Finite 1"
  by (simp add: totalProb_def peak_def rnd_eval)

lemma peak_NaN: "findHPD (Array peak) NotANumber = ([], [\<lparr>imin = 100, imax = 105\<rparr>])"
proof -
  have u: "usedConf NotANumber = NotANumber" by (simp add: usedConf_def invalidConf_def dlt_def)
  have t: "targetProb peak NotANumber = NotANumber"
    by (simp add: targetProb_def peak_total u)
  have inc: "includedPoints peak NotANumber = sortedByProb peak"
    unfolding includedPoints_def t peak_sorted
    by (simp add: rnd_eval)
  have ne: "peak \<noteq> []" by (simp add: peak_def)
  show ?thesis by (simp add: findHPD_nonempty [OF ne] inc peak_sorted invalidConf_def dlt_def)
qed

lemma peak_default:
  "findHPD (Array peak) (rnd 0.95) = ([], [\<lparr>imin = 100, imax = 104\<rparr>])"
proof -
  have u: "usedConf (rnd 0.95) = Finite (8556839292003942 / 2 ^ 53)"
    unfolding usedConf_def default_conf by (simp add: invalidConf_def dlt_def)
  have t: "targetProb peak (rnd 0.95) = Finite (8556839292003942 / 2 ^ 53)"
    unfolding targetProb_def peak_total u by (simp add: rnd_eval)
  have inc: "includedPoints peak (rnd 0.95) = take 5 (sortedByProb peak)"
    unfolding includedPoints_def t peak_sorted
    by (simp add: rnd_eval)
  have ne: "peak \<noteq> []" by (simp add: peak_def)
  have v: "invalidConf (rnd 0.95) = False"
    unfolding default_conf by (simp add: invalidConf_def dlt_def)
  show ?thesis
    unfolding findHPD_nonempty [OF ne] inc v peak_sorted by simp
qed

lemma peak_two:
  "findHPD (Array peak) (Finite 2) = ([InvalidConfidence (Finite 2)], [\<lparr>imin = 100, imax = 104\<rparr>])"
proof -
  have u: "usedConf (Finite 2) = Finite (8556839292003942 / 2 ^ 53)"
    unfolding usedConf_def default_conf by (simp add: invalidConf_def dlt_def)
  have t: "targetProb peak (Finite 2) = Finite (8556839292003942 / 2 ^ 53)"
    unfolding targetProb_def peak_total u by (simp add: rnd_eval)
  have inc: "includedPoints peak (Finite 2) = take 5 (sortedByProb peak)"
    unfolding includedPoints_def t peak_sorted
    by (simp add: rnd_eval)
  have ne: "peak \<noteq> []" by (simp add: peak_def)
  show ?thesis by (simp add: findHPD_nonempty [OF ne] inc peak_sorted invalidConf_def dlt_def)
qed

text \<open>
  C9: the confidence \<open>NaN\<close> lies outside \<open>(0, 1]\<close>, but both comparisons of the range
  check are false for it: \<open>findHPD\<close> logs no warning, does not use \<open>0.95\<close>, and includes
  every point. On the distribution \<open>peak\<close> it returns the interval from 100 to 105,
  where the confidence \<open>0.95\<close> gives the interval from 100 to 104, as the rejected
  confidence 2 does after its warning.
\<close>

theorem findHPD_NaN_confidence:
  "findHPD (Array peak) NotANumber = ([], [\<lparr>imin = 100, imax = 105\<rparr>]) \<and>
   findHPD (Array peak) (rnd 0.95) = ([], [\<lparr>imin = 100, imax = 104\<rparr>]) \<and>
   findHPD (Array peak) (Finite 2) = ([InvalidConfidence (Finite 2)], [\<lparr>imin = 100, imax = 104\<rparr>])"
  using peak_NaN peak_default peak_two by simp

subsection \<open>calibrateDate: search mode, reservoir correction, errors\<close>

lemma assembleResult_mode:
  "map_prod id (map_sum id (\<lambda>res. res\<lparr>input := (input res)\<lparr>search_mode := mode\<rparr>\<rparr>))
     (assembleResult \<lparr>radiocarbon_age = a, uncertainty = u, reservoir_correction = r,
                      curve = ct, search_mode = mode0\<rparr> n) =
   assembleResult \<lparr>radiocarbon_age = a, uncertainty = u, reservoir_correction = r,
                    curve = ct, search_mode = mode\<rparr> n"
  by (simp add: assembleResult_def Let_def split: list.split)

lemma assembleResult_reservoir:
  "map_prod id (map_sum id
       (\<lambda>res. res\<lparr>input := (input res)\<lparr>radiocarbon_age := a', reservoir_correction := r'\<rparr>\<rparr>))
     (assembleResult \<lparr>radiocarbon_age = a, uncertainty = u, reservoir_correction = r,
                      curve = ct, search_mode = mode\<rparr> n) =
   assembleResult \<lparr>radiocarbon_age = a', uncertainty = u, reservoir_correction = r',
                    curve = ct, search_mode = mode\<rparr> n"
  by (simp add: assembleResult_def Let_def split: list.split)




lemma calibrateCurve_reservoir:
  "calibrateCurve (a - R) u 0 ct mode cd =
     mapResult (\<lambda>res. res\<lparr>input := (input res)\<lparr>radiocarbon_age := a - R, reservoir_correction := 0\<rparr>\<rparr>)
       (calibrateCurve a u R ct mode cd)"
  unfolding calibrateCurve_def mapResult_def
  by (simp add: Let_def assembleResult_mode assembleResult_reservoir
        split: sum.split option.split prod.split)

lemma calibrateDate_valid:
  assumes "validateInputs c14_age uncert reservoir = Inr (a, u, r)"
  shows "calibrateDate c14_age uncert reservoir ct mode prov =
     (let warnings = (if ct \<in> set CURVE_TYPES then [] else [InvalidCurveType ct]);
          curveType' = (if ct \<in> set CURVE_TYPES then ct else ''IntCal20'')
      in case (case getCalibrationData prov of
                 Some curves \<Rightarrow> Inr curves
               | None \<Rightarrow>
                   (case loadCalibrationData prov of
                      Inl message \<Rightarrow> Inl (FailedToLoad message)
                    | Inr curves \<Rightarrow> Inr curves)) of
           Inl e \<Rightarrow> Some (warnings, Inl e)
         | Inr calibrationCurves \<Rightarrow>
             (case calibrationCurves curveType' of
                Some (Array (p # ps)) \<Rightarrow>
                  map_option (\<lambda>(ws, res). (warnings @ ws, res))
                    (calibrateCurve a u r curveType' mode (p # ps))
              | _ \<Rightarrow> Some (warnings, Inl (CurveDataMissing curveType'))))"
  by (simp add: calibrateDate_def assms)

lemma mapResult_warnings:
  "mapResult f (map_option (\<lambda>(ws, res). (g ws, res)) x) =
   map_option (\<lambda>(ws, res). (g ws, res)) (mapResult f x)"
  by (cases x) (auto simp: mapResult_def)

lemma mapResult_error [simp]: "mapResult f (Some (ws, Inl e)) = Some (ws, Inl e)"
  by (simp add: mapResult_def)

lemma calibrateDate_mapResult:
  assumes v1: "validateInputs x1 y1 z1 = Inr (a1, u1, r1)"
    and v2: "validateInputs x2 y2 z2 = Inr (a2, u2, r2)"
    and c: "\<And>ct' cd. calibrateCurve a2 u2 r2 ct' mode2 cd = mapResult f (calibrateCurve a1 u1 r1 ct' mode1 cd)"
  shows "calibrateDate x2 y2 z2 ct mode2 prov = mapResult f (calibrateDate x1 y1 z1 ct mode1 prov)"
proof -
  define warnings where "warnings = (if ct \<in> set CURVE_TYPES then [] else [InvalidCurveType ct])"
  define ct' where "ct' = (if ct \<in> set CURVE_TYPES then ct else ''IntCal20'')"
  define loaded where "loaded =
     (case getCalibrationData prov of
        Some curves \<Rightarrow> Inr curves
      | None \<Rightarrow>
          (case loadCalibrationData prov of
             Inl message \<Rightarrow> Inl (FailedToLoad message)
           | Inr curves \<Rightarrow> Inr curves))"
  have d: "calibrateDate x y z ct mode prov =
      (case loaded of
           Inl e \<Rightarrow> Some (warnings, Inl e)
         | Inr calibrationCurves \<Rightarrow>
             (case calibrationCurves ct' of
                Some (Array (p # ps)) \<Rightarrow>
                  map_option (\<lambda>(ws, res). (warnings @ ws, res))
                    (calibrateCurve a u r ct' mode (p # ps))
              | _ \<Rightarrow> Some (warnings, Inl (CurveDataMissing ct'))))"
    if "validateInputs x y z = Inr (a, u, r)" for x y z a u r mode
    unfolding calibrateDate_valid [OF that] warnings_def ct'_def loaded_def Let_def ..
  show ?thesis
  proof (cases loaded)
    case (Inl e)
    then show ?thesis by (simp add: d [OF v1] d [OF v2])
  next
    case (Inr curves)
    show ?thesis
    proof (cases "curves ct'")
      case None
      then show ?thesis by (simp add: d [OF v1] d [OF v2] Inr)
    next
      case (Some arr)
      show ?thesis
      proof (cases arr)
        case NotAnArray
        then show ?thesis by (simp add: d [OF v1] d [OF v2] Inr Some)
      next
        case (Array xs)
        show ?thesis
        proof (cases xs)
          case Nil
          then show ?thesis by (simp add: d [OF v1] d [OF v2] Inr Some Array)
        next
          case (Cons p ps)
          then show ?thesis
            by (simp add: d [OF v1] d [OF v2] Inr Some Array c mapResult_warnings)
        qed
      qed
    qed
  qed
qed




text \<open>
  C4: when both calls pass the input validation, \<open>calibrateDate(c14Age - R, u, 0)\<close> ends
  exactly as \<open>calibrateDate(c14Age, u, R)\<close> does with the same curve type, search mode
  and provider, except for the radiocarbon age and reservoir correction echoed in the
  result.
\<close>

theorem calibrateDate_reservoir:
  assumes "0 \<le> a" and "a \<le> 100000" and "0 \<le> a - R" and "a - R \<le> 100000" and "0 < u"
  shows "calibrateDate (Num (a - R)) (Num u) (Num 0) ct mode prov =
           mapResult (\<lambda>res. res\<lparr>input := (input res)\<lparr>radiocarbon_age := a - R, reservoir_correction := 0\<rparr>\<rparr>)
             (calibrateDate (Num a) (Num u) (Num R) ct mode prov)"
proof -
  have v1: "validateInputs (Num a) (Num u) (Num R) = Inr (a, u, R)"
    using assms by (simp add: validateInputs_def)
  have v2: "validateInputs (Num (a - R)) (Num u) (Num 0) = Inr (a - R, u, 0)"
    using assms by (simp add: validateInputs_def)
  show ?thesis
    by (rule calibrateDate_mapResult [OF v1 v2]) (rule calibrateCurve_reservoir)
qed

theorem calibrateDate_reservoir_witness:
  "calibrateDate (Num 2600) (Num 30) (Num 0) ''IntCal20'' ''c14_bp'' gap_provider =
           mapResult (\<lambda>res. res\<lparr>input := (input res)\<lparr>radiocarbon_age := 2600, reservoir_correction := 0\<rparr>\<rparr>)
             (calibrateDate (Num 3000) (Num 30) (Num 400) ''IntCal20'' ''c14_bp'' gap_provider)"
  using calibrateDate_reservoir [of 3000 400 30 "''IntCal20''" "''c14_bp''" gap_provider]
  by simp

lemma sort_gap: "sort_key c14_BP gap_curve = gap_curve"
  by (simp add: gap_curve_def)

lemma gap_range: "findCalendarRangeByC14BP gap_curve 150 1 = Inr \<lparr>range_min = PosInf, range_max = NegInf\<rparr>"
  by (simp add: findCalendarRangeByC14BP_def sort_gap Let_def)
     (simp add: gap_curve_def minIndex_loop.simps maxIndex_loop.simps at_index_def js_slice_def
        math_min_def math_max_def)

text \<open>
  C5: a call whose arguments pass the validation and whose curve is loaded and
  non-empty can still raise. With the curve \<open>gap_curve\<close>, the band
  \<open>[145, 155]\<close> of the age \<open>150 (uncertainty 1)\<close> holds no curve point, the \<open>c14_bp\<close> range is
  \<open>[Infinity, -Infinity]\<close>, the distribution is empty, \<open>modePoint\<close> is \<open>undefined\<close> and
  reading \<open>modePoint.cal_BP\<close> raises a \<open>TypeError\<close>.
\<close>

theorem calibrateDate_empty_range_TypeError:
  "calibrateDate (Num 150) (Num 1) (Num 0) ''IntCal20'' ''c14_bp'' gap_provider =
     Some ([InvalidDistribution, InvalidDistribution], Inl TypeError)"
proof -
  have v: "validateInputs (Num 150) (Num 1) (Num 0) = Inr (150, 1, 0)"
    by (simp add: validateInputs_def)
  have r: "calendarRange ''c14_bp'' gap_curve 150 1 = Inr (PosInf, NegInf)"
    using gap_range by (simp add: calendarRange_def gap_curve_def xmax_def xmin_def)
  have u: "createUniformDistribution gap_curve PosInf NegInf = Some (Inr [])"
    by (simp add: createUniformDistribution_def)
  have c: "calibrateCurve 150 1 0 ''IntCal20'' ''c14_bp'' gap_curve =
             Some ([InvalidDistribution, InvalidDistribution], Inl TypeError)"
    by (simp add: calibrateCurve_def r u normalizeProbabilities_def assembleResult_def findHPD_def)
  have g: "gap_curve = \<lparr>cal_BP = 0, c14_BP = 100, error = 10\<rparr> # [\<lparr>cal_BP = 10, c14_BP = 200, error = 10\<rparr>]"
    by (simp add: gap_curve_def)
  show ?thesis
    unfolding calibrateDate_valid [OF v]
    using c [unfolded g] by (simp add: gap_provider_def CURVE_TYPES_def g)
qed
subsection \<open>The evaluated calendar range\<close>

lemma sorted_c14_le:
  "sorted (map c14_BP xs) \<Longrightarrow> i \<le> j \<Longrightarrow> j < length xs \<Longrightarrow> c14_BP (xs ! i) \<le> c14_BP (xs ! j)"
  using sorted_nth_mono [of "map c14_BP xs" i j] by simp

lemma minIndex_loop_sorted:
  assumes "sorted (map c14_BP xs)"
    and "0 \<le> low" and "high < int (length xs)" and "low \<le> high + 1"
    and "\<forall>i. 0 \<le> i \<and> i < low \<longrightarrow> c14_BP (xs ! nat i) < lo"
    and "\<forall>i. high < i \<and> i < int (length xs) \<longrightarrow> lo \<le> c14_BP (xs ! nat i)"
    and "(high = int (length xs) - 1 \<and> acc = acc0) \<or> (high < int (length xs) - 1 \<and> acc = high + 1)"
  shows "\<exists>m. minIndex_loop xs lo low high acc = Inr m \<and>
           (((\<forall>i. 0 \<le> i \<and> i < int (length xs) \<longrightarrow> c14_BP (xs ! nat i) < lo) \<and> m = acc0) \<or>
            (0 \<le> m \<and> m < int (length xs) \<and> lo \<le> c14_BP (xs ! nat m) \<and>
             (\<forall>i. 0 \<le> i \<and> i < m \<longrightarrow> c14_BP (xs ! nat i) < lo)))"
  using assms
proof (induction xs lo low high acc rule: minIndex_loop.induct)
  case (1 xs lo low high acc)
  let ?n = "int (length xs)"
  show ?case
  proof (cases "low \<le> high")
    case False
    with "1.prems" have lh: "low = high + 1" by simp
    have res: "minIndex_loop xs lo low high acc = Inr acc"
      using False by (subst minIndex_loop.simps) simp
    from "1.prems"(7) show ?thesis
    proof
      assume a: "high = ?n - 1 \<and> acc = acc0"
      then have "\<forall>i. 0 \<le> i \<and> i < ?n \<longrightarrow> c14_BP (xs ! nat i) < lo"
        using "1.prems"(5) lh by simp
      then show ?thesis using res a by simp
    next
      assume a: "high < ?n - 1 \<and> acc = high + 1"
      then have "lo \<le> c14_BP (xs ! nat acc)" using "1.prems"(6) by simp
      moreover have "\<forall>i. 0 \<le> i \<and> i < acc \<longrightarrow> c14_BP (xs ! nat i) < lo"
        using "1.prems"(5) lh a by simp
      moreover have "0 \<le> acc \<and> acc < ?n" using a lh "1.prems"(2) by simp
      ultimately show ?thesis using res by simp
    qed
  next
    case True
    define mid where "mid = (low + high) div 2"
    have mid_lo: "low \<le> mid" and mid_hi: "mid \<le> high"
      using True by (simp_all add: mid_def)
    have m0: "0 \<le> mid" and mn: "mid < ?n" using mid_lo mid_hi "1.prems"(2,3) by simp_all
    have am: "at_index xs mid = Some (xs ! nat mid)"
      using m0 mn by (simp add: at_index_def)
    let ?m = "xs ! nat mid"
    show ?thesis
    proof (cases "c14_BP ?m < lo")
      case lt: True
      have step: "minIndex_loop xs lo low high acc = minIndex_loop xs lo (mid + 1) high acc"
        using True am lt by (subst minIndex_loop.simps) (simp add: mid_def Let_def)
      have inv: "\<forall>i. 0 \<le> i \<and> i < mid + 1 \<longrightarrow> c14_BP (xs ! nat i) < lo"
      proof (intro allI impI)
        fix i assume i: "0 \<le> i \<and> i < mid + 1"
        then have "nat i \<le> nat mid" by linarith
        moreover have "nat mid < length xs" using m0 mn by simp
        ultimately have "c14_BP (xs ! nat i) \<le> c14_BP ?m"
          using sorted_c14_le [OF "1.prems"(1)] by blast
        then show "c14_BP (xs ! nat i) < lo" using lt by simp
      qed
      show ?thesis
        unfolding step
      proof (rule "1.IH"(1) [OF True mid_def am lt "1.prems"(1)])
        show "0 \<le> mid + 1" using m0 by simp
        show "high < ?n" by (rule "1.prems"(3))
        show "mid + 1 \<le> high + 1" using mid_hi by simp
        show "\<forall>i. 0 \<le> i \<and> i < mid + 1 \<longrightarrow> c14_BP (xs ! nat i) < lo" by (rule inv)
        show "\<forall>i. high < i \<and> i < ?n \<longrightarrow> lo \<le> c14_BP (xs ! nat i)" by (rule "1.prems"(6))
        show "(high = ?n - 1 \<and> acc = acc0) \<or> (high < ?n - 1 \<and> acc = high + 1)"
          by (rule "1.prems"(7))
      qed
    next
      case ge: False
      have step: "minIndex_loop xs lo low high acc = minIndex_loop xs lo low (mid - 1) mid"
        using True am ge by (subst minIndex_loop.simps) (simp add: mid_def Let_def)
      have inv: "\<forall>i. mid - 1 < i \<and> i < ?n \<longrightarrow> lo \<le> c14_BP (xs ! nat i)"
      proof (intro allI impI)
        fix i assume i: "mid - 1 < i \<and> i < ?n"
        then have "nat mid \<le> nat i" using m0 by linarith
        moreover have "nat i < length xs" using i m0 by linarith
        ultimately have "c14_BP ?m \<le> c14_BP (xs ! nat i)"
          using sorted_c14_le [OF "1.prems"(1)] by blast
        then show "lo \<le> c14_BP (xs ! nat i)" using ge by simp
      qed
      show ?thesis
        unfolding step
      proof (rule "1.IH"(2) [OF True mid_def am ge "1.prems"(1)])
        show "0 \<le> low" by (rule "1.prems"(2))
        show "mid - 1 < ?n" using mn by simp
        show "low \<le> mid - 1 + 1" using mid_lo by simp
        show "\<forall>i. 0 \<le> i \<and> i < low \<longrightarrow> c14_BP (xs ! nat i) < lo" by (rule "1.prems"(5))
        show "\<forall>i. mid - 1 < i \<and> i < ?n \<longrightarrow> lo \<le> c14_BP (xs ! nat i)" by (rule inv)
        show "(mid - 1 = ?n - 1 \<and> mid = acc0) \<or> (mid - 1 < ?n - 1 \<and> mid = mid - 1 + 1)"
          using mn by simp
      qed
    qed
  qed
qed

lemma maxIndex_loop_sorted:
  assumes "sorted (map c14_BP xs)"
    and "0 \<le> low" and "high < int (length xs)" and "low \<le> high + 1"
    and "\<forall>i. 0 \<le> i \<and> i < low \<longrightarrow> c14_BP (xs ! nat i) \<le> hi"
    and "\<forall>i. high < i \<and> i < int (length xs) \<longrightarrow> hi < c14_BP (xs ! nat i)"
    and "(low = 0 \<and> acc = acc0) \<or> (0 < low \<and> acc = low - 1)"
  shows "\<exists>m. maxIndex_loop xs hi low high acc = Inr m \<and>
           (((\<forall>i. 0 \<le> i \<and> i < int (length xs) \<longrightarrow> hi < c14_BP (xs ! nat i)) \<and> m = acc0) \<or>
            (0 \<le> m \<and> m < int (length xs) \<and> c14_BP (xs ! nat m) \<le> hi \<and>
             (\<forall>i. m < i \<and> i < int (length xs) \<longrightarrow> hi < c14_BP (xs ! nat i))))"
  using assms
proof (induction xs hi low high acc rule: maxIndex_loop.induct)
  case (1 xs hi low high acc)
  let ?n = "int (length xs)"
  show ?case
  proof (cases "low \<le> high")
    case False
    with "1.prems" have lh: "low = high + 1" by simp
    have res: "maxIndex_loop xs hi low high acc = Inr acc"
      using False by (subst maxIndex_loop.simps) simp
    from "1.prems"(7) show ?thesis
    proof
      assume a: "low = 0 \<and> acc = acc0"
      then have "\<forall>i. 0 \<le> i \<and> i < ?n \<longrightarrow> hi < c14_BP (xs ! nat i)"
        using "1.prems"(6) lh by simp
      then show ?thesis using res a by simp
    next
      assume a: "0 < low \<and> acc = low - 1"
      then have "c14_BP (xs ! nat acc) \<le> hi" using "1.prems"(5) by simp
      moreover have "\<forall>i. acc < i \<and> i < ?n \<longrightarrow> hi < c14_BP (xs ! nat i)"
        using "1.prems"(6) lh a by simp
      moreover have "0 \<le> acc \<and> acc < ?n" using a lh "1.prems"(3) by simp
      ultimately show ?thesis using res by simp
    qed
  next
    case True
    define mid where "mid = (low + high) div 2"
    have mid_lo: "low \<le> mid" and mid_hi: "mid \<le> high"
      using True by (simp_all add: mid_def)
    have m0: "0 \<le> mid" and mn: "mid < ?n" using mid_lo mid_hi "1.prems"(2,3) by simp_all
    have am: "at_index xs mid = Some (xs ! nat mid)"
      using m0 mn by (simp add: at_index_def)
    let ?m = "xs ! nat mid"
    show ?thesis
    proof (cases "c14_BP ?m \<le> hi")
      case le: True
      have step: "maxIndex_loop xs hi low high acc = maxIndex_loop xs hi (mid + 1) high mid"
        using True am le by (subst maxIndex_loop.simps) (simp add: mid_def Let_def)
      have inv: "\<forall>i. 0 \<le> i \<and> i < mid + 1 \<longrightarrow> c14_BP (xs ! nat i) \<le> hi"
      proof (intro allI impI)
        fix i assume i: "0 \<le> i \<and> i < mid + 1"
        then have "nat i \<le> nat mid" by linarith
        moreover have "nat mid < length xs" using m0 mn by simp
        ultimately have "c14_BP (xs ! nat i) \<le> c14_BP ?m"
          using sorted_c14_le [OF "1.prems"(1)] by blast
        then show "c14_BP (xs ! nat i) \<le> hi" using le by simp
      qed
      show ?thesis
        unfolding step
      proof (rule "1.IH"(1) [OF True mid_def am le "1.prems"(1)])
        show "0 \<le> mid + 1" using m0 by simp
        show "high < ?n" by (rule "1.prems"(3))
        show "mid + 1 \<le> high + 1" using mid_hi by simp
        show "\<forall>i. 0 \<le> i \<and> i < mid + 1 \<longrightarrow> c14_BP (xs ! nat i) \<le> hi" by (rule inv)
        show "\<forall>i. high < i \<and> i < ?n \<longrightarrow> hi < c14_BP (xs ! nat i)" by (rule "1.prems"(6))
        show "(mid + 1 = 0 \<and> mid = acc0) \<or> (0 < mid + 1 \<and> mid = mid + 1 - 1)"
          using m0 by simp
      qed
    next
      case gt: False
      have step: "maxIndex_loop xs hi low high acc = maxIndex_loop xs hi low (mid - 1) acc"
        using True am gt by (subst maxIndex_loop.simps) (simp add: mid_def Let_def)
      have inv: "\<forall>i. mid - 1 < i \<and> i < ?n \<longrightarrow> hi < c14_BP (xs ! nat i)"
      proof (intro allI impI)
        fix i assume i: "mid - 1 < i \<and> i < ?n"
        then have "nat mid \<le> nat i" using m0 by linarith
        moreover have "nat i < length xs" using i m0 by linarith
        ultimately have "c14_BP ?m \<le> c14_BP (xs ! nat i)"
          using sorted_c14_le [OF "1.prems"(1)] by blast
        then show "hi < c14_BP (xs ! nat i)" using gt by simp
      qed
      show ?thesis
        unfolding step
      proof (rule "1.IH"(2) [OF True mid_def am gt "1.prems"(1)])
        show "0 \<le> low" by (rule "1.prems"(2))
        show "mid - 1 < ?n" using mn by simp
        show "low \<le> mid - 1 + 1" using mid_lo by simp
        show "\<forall>i. 0 \<le> i \<and> i < low \<longrightarrow> c14_BP (xs ! nat i) \<le> hi" by (rule "1.prems"(5))
        show "\<forall>i. mid - 1 < i \<and> i < ?n \<longrightarrow> hi < c14_BP (xs ! nat i)" by (rule inv)
        show "(low = 0 \<and> acc = acc0) \<or> (0 < low \<and> acc = low - 1)" by (rule "1.prems"(7))
      qed
    qed
  qed
qed


lemma filter_index_interval:
  assumes "\<forall>i < length xs. P (xs ! i) \<longleftrightarrow> a \<le> i \<and> i < e"
  shows "filter P xs = take (e - a) (drop a xs)"
  using assms
proof (induction xs arbitrary: a e)
  case Nil
  then show ?case by simp
next
  case (Cons x xs)
  have tl: "\<forall>i < length xs. P (xs ! i) \<longleftrightarrow> a - 1 \<le> i \<and> i < e - 1"
  proof (intro allI impI)
    fix i assume "i < length xs"
    then have "P ((x # xs) ! Suc i) \<longleftrightarrow> a \<le> Suc i \<and> Suc i < e"
      using Cons.prems by (metis Suc_less_eq length_Cons)
    then show "P (xs ! i) \<longleftrightarrow> a - 1 \<le> i \<and> i < e - 1" by auto
  qed
  have hd: "P x \<longleftrightarrow> a = 0 \<and> 0 < e"
    using Cons.prems by (metis le_zero_eq length_Cons nth_Cons_0 zero_less_Suc)
  have ih: "filter P xs = take (e - 1 - (a - 1)) (drop (a - 1) xs)"
    by (rule Cons.IH [OF tl])
  show ?case
  proof (cases "a = 0")
    case True
    then show ?thesis using hd ih by (cases e) simp_all
  next
    case False
    then obtain a' where a': "a = Suc a'" by (cases a) auto
    then show ?thesis using hd ih by (cases e) simp_all
  qed
qed

lemma math_min_eq: "math_min ys = (if ys = [] then PosInf else Fin (Min (set ys)))"
proof (induction ys)
  case Nil
  then show ?case by (simp add: math_min_def)
next
  case (Cons y ys)
  have step: "math_min (y # ys) = xmin (Fin y) (math_min ys)" by (simp add: math_min_def)
  show ?case
  proof (cases "ys = []")
    case True
    then show ?thesis by (simp add: math_min_def xmin_def)
  next
    case False
    then show ?thesis
      unfolding step Cons.IH by (simp add: xmin_def min_def) 
  qed
qed

lemma math_max_eq: "math_max ys = (if ys = [] then NegInf else Fin (Max (set ys)))"
proof (induction ys)
  case Nil
  then show ?case by (simp add: math_max_def)
next
  case (Cons y ys)
  have step: "math_max (y # ys) = xmax (Fin y) (math_max ys)" by (simp add: math_max_def)
  show ?case
  proof (cases "ys = []")
    case True
    then show ?thesis by (simp add: math_max_def xmax_def)
  next
    case False
    then show ?thesis
      unfolding step Cons.IH by (simp add: xmax_def max_def)
  qed
qed

lemma math_min_cong: "set xs = set ys \<Longrightarrow> math_min xs = math_min ys"
  by (metis math_min_eq set_empty)

lemma math_max_cong: "set xs = set ys \<Longrightarrow> math_max xs = math_max ys"
  by (metis math_max_eq set_empty)

text \<open>The points the two searches select from the curve sorted by radiocarbon age.\<close>

lemma findCalendarRange_slice:
  assumes srt: "sorted (map c14_BP xs)" and lohi: "lo \<le> hi"
  shows "\<exists>a b. minIndex_loop xs lo 0 (int (length xs) - 1) 0 = Inr a \<and>
               maxIndex_loop xs hi 0 (int (length xs) - 1) (int (length xs) - 1) = Inr b \<and>
               js_slice xs a (b + 1) =
                 (if (\<exists>q \<in> set xs. lo \<le> c14_BP q) \<and> (\<exists>q \<in> set xs. c14_BP q \<le> hi)
                  then filter (\<lambda>q. lo \<le> c14_BP q \<and> c14_BP q \<le> hi) xs else xs)"
proof -
  let ?n = "int (length xs)"
  let ?k = "\<lambda>i. c14_BP (xs ! nat i)"
  obtain a where a: "minIndex_loop xs lo 0 (?n - 1) 0 = Inr a"
    and a_cases: "((\<forall>i. 0 \<le> i \<and> i < ?n \<longrightarrow> ?k i < lo) \<and> a = 0) \<or>
            (0 \<le> a \<and> a < ?n \<and> lo \<le> ?k a \<and> (\<forall>i. 0 \<le> i \<and> i < a \<longrightarrow> ?k i < lo))"
    using minIndex_loop_sorted [OF srt, of 0 "?n - 1" lo 0 0] by auto
  obtain b where b: "maxIndex_loop xs hi 0 (?n - 1) (?n - 1) = Inr b"
    and b_cases: "((\<forall>i. 0 \<le> i \<and> i < ?n \<longrightarrow> hi < ?k i) \<and> b = ?n - 1) \<or>
            (0 \<le> b \<and> b < ?n \<and> ?k b \<le> hi \<and> (\<forall>i. b < i \<and> i < ?n \<longrightarrow> hi < ?k i))"
    using maxIndex_loop_sorted [OF srt, of 0 "?n - 1" hi "?n - 1" "?n - 1"] by auto
  have ex_lo: "(\<exists>q \<in> set xs. lo \<le> c14_BP q) \<longleftrightarrow> (\<exists>i. 0 \<le> i \<and> i < ?n \<and> lo \<le> ?k i)"
  proof
    assume "\<exists>q \<in> set xs. lo \<le> c14_BP q"
    then obtain j where "j < length xs" "lo \<le> c14_BP (xs ! j)" by (auto simp: in_set_conv_nth)
    then have "0 \<le> int j \<and> int j < ?n \<and> lo \<le> ?k (int j)" by simp
    then show "\<exists>i. 0 \<le> i \<and> i < ?n \<and> lo \<le> ?k i" by blast
  next
    assume "\<exists>i. 0 \<le> i \<and> i < ?n \<and> lo \<le> ?k i"
    then obtain i where "0 \<le> i" "i < ?n" "lo \<le> ?k i" by blast
    then have "xs ! nat i \<in> set xs" by simp
    then show "\<exists>q \<in> set xs. lo \<le> c14_BP q" using \<open>lo \<le> ?k i\<close> by blast
  qed
  have ex_hi: "(\<exists>q \<in> set xs. c14_BP q \<le> hi) \<longleftrightarrow> (\<exists>i. 0 \<le> i \<and> i < ?n \<and> ?k i \<le> hi)"
  proof
    assume "\<exists>q \<in> set xs. c14_BP q \<le> hi"
    then obtain j where "j < length xs" "c14_BP (xs ! j) \<le> hi" by (auto simp: in_set_conv_nth)
    then have "0 \<le> int j \<and> int j < ?n \<and> ?k (int j) \<le> hi" by simp
    then show "\<exists>i. 0 \<le> i \<and> i < ?n \<and> ?k i \<le> hi" by blast
  next
    assume "\<exists>i. 0 \<le> i \<and> i < ?n \<and> ?k i \<le> hi"
    then obtain i where "0 \<le> i" "i < ?n" "?k i \<le> hi" by blast
    then have "xs ! nat i \<in> set xs" by simp
    then show "\<exists>q \<in> set xs. c14_BP q \<le> hi" using \<open>?k i \<le> hi\<close> by blast
  qed
  have whole: "js_slice xs 0 (?n - 1 + 1) = xs" by (simp add: js_slice_def)
  have "js_slice xs a (b + 1) =
          (if (\<exists>q \<in> set xs. lo \<le> c14_BP q) \<and> (\<exists>q \<in> set xs. c14_BP q \<le> hi)
           then filter (\<lambda>q. lo \<le> c14_BP q \<and> c14_BP q \<le> hi) xs else xs)"
  proof (cases "(\<exists>q \<in> set xs. lo \<le> c14_BP q) \<and> (\<exists>q \<in> set xs. c14_BP q \<le> hi)")
    case True
    then have a2: "0 \<le> a" "a < ?n" "lo \<le> ?k a" "\<forall>i. 0 \<le> i \<and> i < a \<longrightarrow> ?k i < lo"
      using a_cases ex_lo by (smt (verit))+
    from True have b2: "0 \<le> b" "b < ?n" "?k b \<le> hi" "\<forall>i. b < i \<and> i < ?n \<longrightarrow> hi < ?k i"
      using b_cases ex_hi by (smt (verit))+
    have band: "\<forall>i < length xs. (lo \<le> c14_BP (xs ! i) \<and> c14_BP (xs ! i) \<le> hi) \<longleftrightarrow>
                  nat a \<le> i \<and> i < nat (b + 1)"
    proof (intro allI impI)
      fix i assume i: "i < length xs"
      have l: "lo \<le> c14_BP (xs ! i) \<longleftrightarrow> nat a \<le> i"
      proof
        assume "lo \<le> c14_BP (xs ! i)"
        then have "\<not> int i < a" using a2(4) by (smt (verit) nat_int of_nat_0_le_iff)
        then show "nat a \<le> i" by linarith
      next
        assume "nat a \<le> i"
        then have "c14_BP (xs ! nat a) \<le> c14_BP (xs ! i)"
          using sorted_c14_le [OF srt _ i] by blast
        then show "lo \<le> c14_BP (xs ! i)" using a2(3) by simp
      qed
      have h: "c14_BP (xs ! i) \<le> hi \<longleftrightarrow> i < nat (b + 1)"
      proof
        assume "c14_BP (xs ! i) \<le> hi"
        then have "\<not> b < int i" using b2(4) i by (smt (verit) nat_int of_nat_less_iff)
        then show "i < nat (b + 1)" by linarith
      next
        assume "i < nat (b + 1)"
        then have "i \<le> nat b" using b2(1) by linarith
        moreover have "nat b < length xs" using b2(1,2) by linarith
        ultimately have "c14_BP (xs ! i) \<le> c14_BP (xs ! nat b)"
          using sorted_c14_le [OF srt] by blast
        then show "c14_BP (xs ! i) \<le> hi" using b2(3) by simp
      qed
      show "(lo \<le> c14_BP (xs ! i) \<and> c14_BP (xs ! i) \<le> hi) \<longleftrightarrow> nat a \<le> i \<and> i < nat (b + 1)"
        using l h by blast
    qed
    have "js_slice xs a (b + 1) = take (nat (b + 1 - a)) (drop (nat a) xs)"
      using a2(1,2) b2(1,2) by (simp add: js_slice_def min_def)
    also have "nat (b + 1 - a) = nat (b + 1) - nat a" using a2(1) b2(1) by linarith
    finally show ?thesis
      using True filter_index_interval [OF band] by simp
  next
    case False
    have "a = 0 \<and> b = ?n - 1"
    proof (cases "\<exists>q \<in> set xs. lo \<le> c14_BP q")
      case lo_ex: True
      with False have none_hi: "\<forall>i. 0 \<le> i \<and> i < ?n \<longrightarrow> hi < ?k i"
        using ex_hi by (smt (verit))
      then have "b = ?n - 1" using b_cases by (smt (verit))
      moreover have "a = 0"
      proof (rule ccontr)
        assume "a \<noteq> 0"
        then have "0 < a \<and> a < ?n \<and> (\<forall>i. 0 \<le> i \<and> i < a \<longrightarrow> ?k i < lo)"
          using a_cases by (smt (verit))
        then have "?k 0 < lo \<and> hi < ?k 0" using none_hi by (smt (verit))
        then show False using lohi by simp
      qed
      ultimately show ?thesis by simp
    next
      case lo_none: False
      then have none_lo: "\<forall>i. 0 \<le> i \<and> i < ?n \<longrightarrow> ?k i < lo"
        using ex_lo by (smt (verit))
      then have "a = 0" using a_cases by (smt (verit))
      moreover have "b = ?n - 1"
      proof (rule ccontr)
        assume nb: "b \<noteq> ?n - 1"
        then have "0 \<le> b \<and> b < ?n - 1 \<and> (\<forall>i. b < i \<and> i < ?n \<longrightarrow> hi < ?k i)"
          using b_cases by (smt (verit))
        then have "hi < ?k (b + 1) \<and> ?k (b + 1) < lo" using none_lo by (smt (verit))
        then show False using lohi by simp
      qed
      ultimately show ?thesis by simp
    qed
    then show ?thesis using False whole by auto
  qed
  then show ?thesis using a b by blast
qed


lemma findCalendarRangeByC14BP_selected:
  assumes "0 \<le> u"
  shows "findCalendarRangeByC14BP cd age u =
           (let selected =
                  (if (\<exists>q \<in> set cd. age - 5 * u \<le> c14_BP q) \<and> (\<exists>q \<in> set cd. c14_BP q \<le> age + 5 * u)
                   then inBand cd age u else cd)
            in Inr \<lparr>range_min = math_min (map cal_BP selected),
                    range_max = math_max (map cal_BP selected)\<rparr>)"
proof -
  let ?xs = "sort_key c14_BP cd"
  let ?lo = "age - 5 * u" and ?hi = "age + 5 * u"
  have srt: "sorted (map c14_BP ?xs)" by simp
  have lohi: "?lo \<le> ?hi" using assms by simp
  from findCalendarRange_slice [OF srt lohi]
  obtain a b where a: "minIndex_loop ?xs ?lo 0 (int (length ?xs) - 1) 0 = Inr a"
    and b: "maxIndex_loop ?xs ?hi 0 (int (length ?xs) - 1) (int (length ?xs) - 1) = Inr b"
    and sl: "js_slice ?xs a (b + 1) =
               (if (\<exists>q \<in> set ?xs. ?lo \<le> c14_BP q) \<and> (\<exists>q \<in> set ?xs. c14_BP q \<le> ?hi)
                then filter (\<lambda>q. ?lo \<le> c14_BP q \<and> c14_BP q \<le> ?hi) ?xs else ?xs)"
    by blast
  define selected where "selected =
     (if (\<exists>q \<in> set cd. ?lo \<le> c14_BP q) \<and> (\<exists>q \<in> set cd. c14_BP q \<le> ?hi)
      then inBand cd age u else cd)"
  have "set (js_slice ?xs a (b + 1)) = set selected"
    unfolding sl selected_def inBand_def by simp
  then have "set (map cal_BP (js_slice ?xs a (b + 1))) = set (map cal_BP selected)"
    by simp
  then have mm: "math_min (map cal_BP (js_slice ?xs a (b + 1))) = math_min (map cal_BP selected)"
       "math_max (map cal_BP (js_slice ?xs a (b + 1))) = math_max (map cal_BP selected)"
    by (rule math_min_cong, rule math_max_cong)
  have "findCalendarRangeByC14BP cd age u =
          Inr \<lparr>range_min = math_min (map cal_BP selected),
               range_max = math_max (map cal_BP selected)\<rparr>"
    unfolding findCalendarRangeByC14BP_def Let_def using a b mm by simp
  then show ?thesis unfolding selected_def Let_def .
qed

text \<open>
  C6, amended: in \<open>c14_bp\<close> mode the evaluated range is computed from the curve points
  whose \<open>c14_BP\<close> lies in the band of five uncertainties around the corrected age when
  some curve point is at or above the band's lower end and some curve point is at or
  below its upper end, and from all curve points otherwise (a band entirely above or
  entirely below the curve's radiocarbon ages): the least and greatest \<open>cal_BP\<close> of those
  points, padded by 500 years with the lower bound not below 0 and no upper limit, then
  clamped to the first and last \<open>cal_BP\<close> of the curve. \<open>full_curve\<close> mode gives the
  curve's extent, \<open>fixed_range\<close> mode \<open>[0, 12000]\<close> under the same clamp.
\<close>

theorem calendarRange_spec:
  assumes "0 \<le> u"
  shows
    "calendarRange ''c14_bp'' (p # ps) age u =
       Inr (paddedRange (p # ps)
              (if (\<exists>q \<in> set (p # ps). age - 5 * u \<le> c14_BP q) \<and>
                  (\<exists>q \<in> set (p # ps). c14_BP q \<le> age + 5 * u)
               then inBand (p # ps) age u else p # ps)) \<and>
     calendarRange ''full_curve'' (p # ps) age u =
       Inr (Fin (cal_BP p), Fin (cal_BP (last (p # ps)))) \<and>
     calendarRange ''fixed_range'' (p # ps) age u =
       Inr (xmax (Fin 0) (Fin (cal_BP p)), xmin (Fin 12000) (Fin (cal_BP (last (p # ps)))))"
proof -
  have 1: "calendarRange ''c14_bp'' (p # ps) age u =
       Inr (paddedRange (p # ps)
              (if (\<exists>q \<in> set (p # ps). age - 5 * u \<le> c14_BP q) \<and>
                  (\<exists>q \<in> set (p # ps). c14_BP q \<le> age + 5 * u)
               then inBand (p # ps) age u else p # ps))"
    unfolding calendarRange_def findCalendarRangeByC14BP_selected [OF assms] paddedRange_def
    by (simp add: Let_def)
  have 2: "calendarRange ''full_curve'' (p # ps) age u =
       Inr (Fin (cal_BP p), Fin (cal_BP (last (p # ps))))"
    by (simp add: calendarRange_def xmax_def xmin_def)
  have 3: "calendarRange ''fixed_range'' (p # ps) age u =
       Inr (xmax (Fin 0) (Fin (cal_BP p)), xmin (Fin 12000) (Fin (cal_BP (last (p # ps)))))"
    by (simp add: calendarRange_def)
  show ?thesis using 1 2 3 by blast
qed

theorem calendarRange_spec_witness:
  "calendarRange ''c14_bp'' spread_curve 200 1 = Inr (Fin 500, Fin 1500) \<and>
   calendarRange ''c14_bp'' spread_curve 1000 1 = Inr (Fin 0, Fin 5000) \<and>
   calendarRange ''full_curve'' spread_curve 200 1 = Inr (Fin 0, Fin 5000) \<and>
   calendarRange ''fixed_range'' spread_curve 200 1 = Inr (Fin 0, Fin 5000)"
proof -
  have u: "(0::real) \<le> 1" by simp
  have c: "spread_curve = \<lparr>cal_BP = 0, c14_BP = 100, error = 10\<rparr> #
             [\<lparr>cal_BP = 1000, c14_BP = 200, error = 10\<rparr>, \<lparr>cal_BP = 5000, c14_BP = 300, error = 10\<rparr>]"
    by (simp add: spread_curve_def)
  show ?thesis
    using calendarRange_spec [OF u, of "\<lparr>cal_BP = 0, c14_BP = 100, error = 10\<rparr>"
        "[\<lparr>cal_BP = 1000, c14_BP = 200, error = 10\<rparr>, \<lparr>cal_BP = 5000, c14_BP = 300, error = 10\<rparr>]" 200]
      calendarRange_spec [OF u, of "\<lparr>cal_BP = 0, c14_BP = 100, error = 10\<rparr>"
        "[\<lparr>cal_BP = 1000, c14_BP = 200, error = 10\<rparr>, \<lparr>cal_BP = 5000, c14_BP = 300, error = 10\<rparr>]" 1000]
    unfolding c [symmetric]
    by (simp add: spread_curve_def paddedRange_def inBand_def math_min_def math_max_def
          xmax_def xmin_def)
qed

text \<open>
  C6 as stated fails when the band lies outside the curve's radiocarbon ages: for the
  age 1000 (uncertainty 1) no point of \<open>spread_curve\<close> lies in the band, so the range of
  the points in the band is empty, and the source evaluates the whole curve.
\<close>

theorem calendarRange_band_outside_curve:
  "inBand spread_curve 1000 1 = [] \<and>
   specC14Range spread_curve 1000 1 = (PosInf, NegInf) \<and>
   calendarRange ''c14_bp'' spread_curve 1000 1 = Inr (Fin 0, Fin 5000)"
proof -
  have s: "sort_key c14_BP spread_curve = spread_curve" by (simp add: spread_curve_def)
  have f: "findCalendarRangeByC14BP spread_curve 1000 1 = Inr \<lparr>range_min = Fin 0, range_max = Fin 5000\<rparr>"
    by (simp add: findCalendarRangeByC14BP_def s Let_def)
       (simp add: spread_curve_def minIndex_loop.simps maxIndex_loop.simps at_index_def js_slice_def
          math_min_def math_max_def xmin_def xmax_def)
  have c: "calendarRange ''c14_bp'' spread_curve 1000 1 = Inr (Fin 0, Fin 5000)"
    using f by (simp add: calendarRange_def spread_curve_def xmax_def xmin_def)
  have b: "inBand spread_curve 1000 1 = []" by (simp add: inBand_def spread_curve_def)
  have "specC14Range spread_curve 1000 1 = (PosInf, NegInf)"
    by (simp add: specC14Range_def b paddedRange_def math_min_def math_max_def xmax_def xmin_def)
  then show ?thesis using b c by simp
qed
subsection \<open>findHPD: the density property\<close>








lemma hpdCovers_Nil [simp]: "\<not> hpdCovers [] y"
  by (simp add: hpdCovers_def)

lemma hpdCovers_Cons [simp]:
  "hpdCovers (iv # ivs) y \<longleftrightarrow> (imin iv \<le> y \<and> y \<le> imax iv) \<or> hpdCovers ivs y"
  by (simp add: hpdCovers_def)














subsection \<open>findHPD: full confidence\<close>

lemma faint_tail_sorted: "sortedByProb faint_tail = faint_tail"
  by (simp add: sortedByProb_def faint_tail_def)

lemma faint_tail_total: "totalProb faint_tail = Finite 1"
  by (simp add: totalProb_def faint_tail_def rnd_eval)


text \<open>
  C2: at confidence 1 on the distribution \<open>faint_tail\<close> the total \<open>1 + 2 ^ (- 60)\<close> is
  rounded to 1, the first point already reaches the target 1, and the loop stops: the
  only interval is the year 100, and the point of non-zero probability at the year 105
  is left out.
\<close>

lemma faint_tail_hpd:
  "findHPD (Array faint_tail) (Finite 1) = ([], [\<lparr>imin = 100, imax = 100\<rparr>])"
proof -
  have u: "usedConf (Finite 1) = Finite 1" by (simp add: usedConf_def invalidConf_def dlt_def)
  have t: "targetProb faint_tail (Finite 1) = Finite 1"
    by (simp add: targetProb_def faint_tail_total u rnd_eval)
  have inc: "includedPoints faint_tail (Finite 1) = [\<lparr>cal_BP = 100, probability = 1\<rparr>]"
    unfolding includedPoints_def t faint_tail_sorted
    by (simp add: faint_tail_def rnd_eval)
  have ne: "faint_tail \<noteq> []" by (simp add: faint_tail_def)
  show ?thesis by (simp add: findHPD_nonempty [OF ne] inc invalidConf_def dlt_def)
qed


theorem findHPD_full_confidence_absorbed:
  "findHPD (Array faint_tail) (Finite 1) = ([], [\<lparr>imin = 100, imax = 100\<rparr>]) \<and>
   \<lparr>cal_BP = 105, probability = 1 / 2 ^ 60\<rparr> \<in> set faint_tail \<and>
   (0 :: real) < 1 / 2 ^ 60 \<and>
   \<not> hpdCovers (snd (findHPD (Array faint_tail) (Finite 1))) 105"
  unfolding faint_tail_hpd by (simp add: faint_tail_def hpdCovers_def)

subsection \<open>Termination, and the outcome of valid calls\<close>

text \<open>The bounds that reach \<open>createUniformDistribution\<close> never make its loop run forever.\<close>

lemma calendarRange_bounds:
  assumes "calendarRange mode cd age u = Inr (lo, hi)"
  shows "lo \<noteq> NegInf \<and> hi \<noteq> PosInf"
proof -
  have a: "xmax m (Fin f) \<noteq> NegInf" for m f by (cases m) (simp_all add: xmax_def)
  have b: "xmin m (Fin f) \<noteq> PosInf" for m f by (cases m) (simp_all add: xmin_def)
  from assms obtain m M f l where "lo = xmax m (Fin f)" "hi = xmin M (Fin l)"
    unfolding calendarRange_def by (auto split: list.splits sum.splits prod.splits)
  then show ?thesis using a b by simp
qed

lemma createUniformDistribution_returns:
  assumes "lo \<noteq> NegInf" and "hi \<noteq> PosInf"
  shows "createUniformDistribution cd lo hi \<noteq> None"
  using assms by (cases lo; cases hi) (simp_all add: createUniformDistribution_def)

lemma calibrateCurve_returns: "calibrateCurve a u r ct mode cd \<noteq> None"
proof (cases "calendarRange mode cd (a - r) u")
  case (Inl e)
  then show ?thesis by (simp add: calibrateCurve_def)
next
  case (Inr b)
  obtain lo hi where b: "b = (lo, hi)" by (cases b)
  have "createUniformDistribution cd lo hi \<noteq> None"
    using calendarRange_bounds [OF Inr [unfolded b]] createUniformDistribution_returns by blast
  then show ?thesis
    using Inr b by (auto simp: calibrateCurve_def split: option.splits sum.splits)
qed

text \<open>After validation a call either raises before the computation or runs it on a curve.\<close>

lemma calibrateDate_form:
  assumes v: "validateInputs x y z = Inr (a, u, r)"
  shows "(\<exists>ws e. calibrateDate x y z ct mode prov = Some (ws, Inl e)) \<or>
         (\<exists>w ct' cd. calibrateDate x y z ct mode prov =
                        map_option (\<lambda>(ws, res). (w @ ws, res)) (calibrateCurve a u r ct' mode cd))"
proof -
  define warnings where "warnings = (if ct \<in> set CURVE_TYPES then [] else [InvalidCurveType ct])"
  define ct' where "ct' = (if ct \<in> set CURVE_TYPES then ct else ''IntCal20'')"
  define loaded where "loaded =
     (case getCalibrationData prov of
        Some curves \<Rightarrow> Inr curves
      | None \<Rightarrow>
          (case loadCalibrationData prov of
             Inl message \<Rightarrow> Inl (FailedToLoad message)
           | Inr curves \<Rightarrow> Inr curves))"
  have d: "calibrateDate x y z ct mode prov =
      (case loaded of
           Inl e \<Rightarrow> Some (warnings, Inl e)
         | Inr calibrationCurves \<Rightarrow>
             (case calibrationCurves ct' of
                Some (Array (p # ps)) \<Rightarrow>
                  map_option (\<lambda>(ws, res). (warnings @ ws, res))
                    (calibrateCurve a u r ct' mode (p # ps))
              | _ \<Rightarrow> Some (warnings, Inl (CurveDataMissing ct'))))"
    unfolding calibrateDate_valid [OF v] warnings_def ct'_def loaded_def Let_def ..
  show ?thesis
  proof (cases loaded)
    case (Inl e)
    then show ?thesis by (simp add: d)
  next
    case (Inr curves)
    show ?thesis
    proof (cases "curves ct'")
      case None
      then show ?thesis by (simp add: d Inr)
    next
      case (Some arr)
      show ?thesis
      proof (cases arr)
        case NotAnArray
        then show ?thesis by (simp add: d Inr Some)
      next
        case (Array xs)
        show ?thesis
        proof (cases xs)
          case Nil
          then show ?thesis by (simp add: d Inr Some Array)
        next
          case (Cons p ps)
          have "calibrateDate x y z ct mode prov =
                  map_option (\<lambda>(ws, res). (warnings @ ws, res))
                    (calibrateCurve a u r ct' mode (p # ps))"
            by (simp add: d Inr Some Array Cons)
          then show ?thesis by blast
        qed
      qed
    qed
  qed
qed

text \<open>Every call of \<open>calibrateDate\<close> returns: with an error or with a result.\<close>

lemma calibrateDate_returns: "calibrateDate x y z ct mode prov \<noteq> None"
proof (cases "validateInputs x y z")
  case (Inl e)
  then show ?thesis by (simp add: calibrateDate_def)
next
  case (Inr t)
  then obtain a u r where v: "validateInputs x y z = Inr (a, u, r)" by (cases t) auto
  from calibrateDate_form [OF v, of ct mode prov] show ?thesis
  proof
    assume "\<exists>ws e. calibrateDate x y z ct mode prov = Some (ws, Inl e)"
    then show ?thesis by auto
  next
    assume "\<exists>w ct' cd. calibrateDate x y z ct mode prov =
              map_option (\<lambda>(ws, res). (w @ ws, res)) (calibrateCurve a u r ct' mode cd)"
    then obtain w ct' cd where e: "calibrateDate x y z ct mode prov =
              map_option (\<lambda>(ws, res). (w @ ws, res)) (calibrateCurve a u r ct' mode cd)"
      by blast
    have "calibrateCurve a u r ct' mode cd \<noteq> None" by (rule calibrateCurve_returns)
    then show ?thesis unfolding e by simp
  qed
qed

text \<open>
  The calendar years of a uniform curve are distinct and lie on the one-year lattice
  through its first year; normalization keeps them.
\<close>

lemma createUniformDistribution_loop_years:
  assumes "createUniformDistribution_loop cd s e = Inr ps"
  shows "(\<forall>p \<in> set ps. cal_BP p - s \<in> \<int> \<and> s \<le> cal_BP p) \<and> sorted_wrt (<) (map cal_BP ps)"
  using assms
proof (induction cd s e arbitrary: ps rule: createUniformDistribution_loop.induct)
  case (1 cd s e)
  show ?case
  proof (cases "s \<le> e")
    case False
    then have "ps = []" using "1.prems" by (subst (asm) createUniformDistribution_loop.simps) simp
    then show ?thesis by simp
  next
    case True
    from "1.prems" True obtain v rest where v: "getCurveValueAt s cd = Inr v"
      and rest: "createUniformDistribution_loop cd (s + 1) e = Inr rest"
      and ps: "ps = \<lparr>cal_BP = s, c14_BP = lookup_c14_BP v, error = lookup_error v\<rparr> # rest"
      by (subst (asm) createUniformDistribution_loop.simps) (auto split: sum.splits)
    from "1.IH" [OF True v rest]
    have ih: "\<forall>p \<in> set rest. cal_BP p - (s + 1) \<in> \<int> \<and> s + 1 \<le> cal_BP p"
      and srt: "sorted_wrt (<) (map cal_BP rest)"
      by simp_all
    have "\<forall>p \<in> set rest. cal_BP p - s \<in> \<int> \<and> s < cal_BP p"
    proof
      fix p assume "p \<in> set rest"
      then have "cal_BP p - (s + 1) \<in> \<int>" "s + 1 \<le> cal_BP p" using ih by simp_all
      then have "cal_BP p - (s + 1) + 1 \<in> \<int>" by (intro Ints_add) simp_all
      then show "cal_BP p - s \<in> \<int> \<and> s < cal_BP p" using \<open>s + 1 \<le> cal_BP p\<close> by simp
    qed
    then show ?thesis using srt ps by auto
  qed
qed

lemma normalizeProbabilities_years:
  "map cal_BP (normalizeProbabilities a u uniformCurve) = map cal_BP uniformCurve"
  by (simp add: normalizeProbabilities_def Let_def comp_def)

lemma uniform_distribution_lattice:
  assumes "createUniformDistribution_loop cd s e = Inr uniformCurve"
  shows "distinct (map cal_BP (normalizeProbabilities a u uniformCurve)) \<and>
         (\<forall>p \<in> set (normalizeProbabilities a u uniformCurve). cal_BP p - s \<in> \<int>)"
proof -
  from createUniformDistribution_loop_years [OF assms]
  have ints: "\<forall>x \<in> set (map cal_BP uniformCurve). x - s \<in> \<int>"
    and srt: "sorted_wrt (<) (map cal_BP uniformCurve)"
    by simp_all
  have "distinct (map cal_BP uniformCurve)" using srt strict_sorted_iff by blast
  then have d: "distinct (map cal_BP (normalizeProbabilities a u uniformCurve))"
    by (simp only: normalizeProbabilities_years)
  have "\<forall>x \<in> set (map cal_BP (normalizeProbabilities a u uniformCurve)). x - s \<in> \<int>"
    using ints by (simp only: normalizeProbabilities_years)
  then show ?thesis using d by simp
qed

text \<open>
  The lookup never reads outside a non-empty curve, sorted or not: the two boundary
  checks keep the search away from both ends.
\<close>

lemma getCurveValueAt_loop_total:
  assumes "0 \<le> low" and "low < int (length cd)" and "0 \<le> high" and "high < int (length cd)"
    and "cal_BP (cd ! 0) < t" and "t < cal_BP (cd ! (length cd - 1))"
  shows "\<exists>v. getCurveValueAt_loop t cd low high = Inr v"
  using assms
proof (induction t cd low high rule: getCurveValueAt_loop.induct)
  case (1 calBP curveData low high)
  let ?n = "int (length curveData)"
  show ?case
  proof (cases "low \<le> high")
    case False
    have a: "at_index curveData high = Some (curveData ! nat high)"
      using "1.prems"(3,4) by (simp add: at_index_def)
    have b: "at_index curveData low = Some (curveData ! nat low)"
      using "1.prems"(1,2) by (simp add: at_index_def)
    show ?thesis
      using False a b by (subst getCurveValueAt_loop.simps) simp
  next
    case True
    define mid where "mid = (low + high) div 2"
    have mid_lo: "low \<le> mid" and mid_hi: "mid \<le> high"
      using True by (simp_all add: mid_def)
    have m0: "0 \<le> mid" and mn: "mid < ?n" using mid_lo mid_hi "1.prems"(1,4) by simp_all
    have am: "at_index curveData mid = Some (curveData ! nat mid)"
      using m0 mn by (simp add: at_index_def)
    let ?m = "curveData ! nat mid"
    consider (lt) "cal_BP ?m < calBP" | (gt) "cal_BP ?m > calBP" | (eq) "cal_BP ?m = calBP"
      by linarith
    then show ?thesis
    proof cases
      case lt
      have step: "getCurveValueAt_loop calBP curveData low high =
                  getCurveValueAt_loop calBP curveData (mid + 1) high"
        using True am lt by (subst getCurveValueAt_loop.simps) (simp add: mid_def Let_def)
      have "nat mid \<noteq> length curveData - 1" using lt "1.prems"(6) by auto
      then have "mid + 1 < ?n" using mn m0 by linarith
      then show ?thesis
        unfolding step
        using "1.IH"(1) [OF True mid_def am lt _ _ "1.prems"(3,4,5,6)] m0 by simp
    next
      case gt
      have ngt: "\<not> cal_BP ?m < calBP" using gt by simp
      have step: "getCurveValueAt_loop calBP curveData low high =
                  getCurveValueAt_loop calBP curveData low (mid - 1)"
        using True am gt by (subst getCurveValueAt_loop.simps) (simp add: mid_def Let_def)
      have "nat mid \<noteq> 0" using gt "1.prems"(5) by auto
      then have "0 \<le> mid - 1" using m0 by linarith
      then show ?thesis
        unfolding step
        using "1.IH"(2) [OF True mid_def am ngt gt "1.prems"(1,2) _ _ "1.prems"(5,6)] mn by simp
    next
      case eq
      show ?thesis
        using True am eq by (subst getCurveValueAt_loop.simps) (simp add: mid_def Let_def)
    qed
  qed
qed

lemma getCurveValueAt_total:
  assumes "cd \<noteq> []"
  shows "\<exists>v. getCurveValueAt t cd = Inr v"
proof -
  obtain p ps where cd: "cd = p # ps" using assms by (cases cd) auto
  show ?thesis
  proof (cases "t \<le> cal_BP p \<or> cal_BP (last cd) \<le> t")
    case True
    then show ?thesis by (auto simp: getCurveValueAt_def cd)
  next
    case False
    then have u: "getCurveValueAt t cd = getCurveValueAt_loop t cd 0 (int (length cd) - 1)"
      by (auto simp: getCurveValueAt_def cd)
    have "cal_BP (cd ! 0) < t" using False cd by simp
    moreover have "t < cal_BP (cd ! (length cd - 1))"
      using False assms by (simp add: last_conv_nth)
    ultimately show ?thesis
      unfolding u using assms by (intro getCurveValueAt_loop_total) simp_all
  qed
qed

text \<open>On a non-empty curve the uniform curve is built, and it is empty only for an empty range.\<close>

lemma createUniformDistribution_loop_total:
  assumes "cd \<noteq> []"
  shows "\<exists>ps. createUniformDistribution_loop cd s e = Inr ps \<and> (ps = [] \<longleftrightarrow> \<not> s \<le> e)"
  using assms
proof (induction cd s e rule: createUniformDistribution_loop.induct)
  case (1 cd s e)
  show ?case
  proof (cases "s \<le> e")
    case False
    then show ?thesis by (subst createUniformDistribution_loop.simps) simp
  next
    case True
    obtain v where v: "getCurveValueAt s cd = Inr v"
      using getCurveValueAt_total [OF "1.prems"] by blast
    obtain rest where rest: "createUniformDistribution_loop cd (s + 1) e = Inr rest"
      using "1.IH" [OF True v "1.prems"] by blast
    show ?thesis
      using True v rest by (subst createUniformDistribution_loop.simps) simp
  qed
qed

lemma findCalendarRangeByC14BP_total: "\<exists>rng. findCalendarRangeByC14BP cd age u = Inr rng"
proof -
  let ?xs = "sort_key c14_BP cd"
  have srt: "sorted (map c14_BP ?xs)" by simp
  obtain a where a: "minIndex_loop ?xs (age - 5 * u) 0 (int (length ?xs) - 1) 0 = Inr a"
    using minIndex_loop_sorted [OF srt, of 0 "int (length ?xs) - 1" "age - 5 * u" 0 0] by auto
  obtain b where b: "maxIndex_loop ?xs (age + 5 * u) 0 (int (length ?xs) - 1) (int (length ?xs) - 1) = Inr b"
    using maxIndex_loop_sorted [OF srt, of 0 "int (length ?xs) - 1" "age + 5 * u"
        "int (length ?xs) - 1" "int (length ?xs) - 1"] by auto
  show ?thesis
    unfolding findCalendarRangeByC14BP_def Let_def using a b by simp
qed

lemma calendarRange_total:
  assumes "cd \<noteq> []"
  shows "\<exists>lo hi. calendarRange mode cd age u = Inr (lo, hi)"
proof -
  obtain p ps where cd: "cd = p # ps" using assms by (cases cd) auto
  obtain rng where "findCalendarRangeByC14BP cd age u = Inr rng"
    using findCalendarRangeByC14BP_total by blast
  then show ?thesis by (simp add: calendarRange_def cd)
qed

lemma normalizeProbabilities_empty [simp]: "normalizeProbabilities a u [] = []"
  by (simp add: normalizeProbabilities_def)

lemma assembleResult_empty:
  "assembleResult echoed [] = ([InvalidDistribution, InvalidDistribution], Inl TypeError)"
  by (simp add: assembleResult_def findHPD_def)

lemma assembleResult_nonempty:
  assumes "n \<noteq> []"
  shows "\<exists>res. assembleResult echoed n = ([], Inr res)"
proof -
  have "sort_key (\<lambda>p. - probability p) n \<noteq> []" using assms by (metis length_0_conv length_sort)
  then obtain m ms where "sort_key (\<lambda>p. - probability p) n = m # ms"
    by (cases "sort_key (\<lambda>p. - probability p) n") auto
  then show ?thesis
    unfolding assembleResult_def Let_def findHPD_nonempty [OF assms] sigma_conf_valid
    by simp
qed

text \<open>
  On a non-empty curve the computation raises exactly when the evaluated range holds no
  year, and then with a \<open>TypeError\<close> after two warnings of \<open>findHPD\<close>.
\<close>

lemma calibrateCurve_outcome:
  assumes "cd \<noteq> []"
  shows "\<exists>lo hi. calendarRange mode cd (a - r) u = Inr (lo, hi) \<and>
           (if xle lo hi
            then \<exists>res. calibrateCurve a u r ct mode cd = Some ([], Inr res)
            else calibrateCurve a u r ct mode cd =
                   Some ([InvalidDistribution, InvalidDistribution], Inl TypeError))"
proof -
  obtain lo hi where rng: "calendarRange mode cd (a - r) u = Inr (lo, hi)"
    using calendarRange_total [OF assms] by blast
  have bounds: "lo \<noteq> NegInf" "hi \<noteq> PosInf" using calendarRange_bounds [OF rng] by simp_all
  show ?thesis
  proof (cases "xle lo hi")
    case False
    then have "createUniformDistribution cd lo hi = Some (Inr [])"
      by (simp add: createUniformDistribution_def)
    then have "calibrateCurve a u r ct mode cd =
                 Some ([InvalidDistribution, InvalidDistribution], Inl TypeError)"
      by (simp add: calibrateCurve_def rng assembleResult_empty)
    then show ?thesis using rng False by simp
  next
    case True
    then obtain s e where se: "lo = Fin s" "hi = Fin e" "s \<le> e"
      using bounds by (cases lo; cases hi) simp_all
    obtain ps where ps: "createUniformDistribution_loop cd s e = Inr ps" "ps \<noteq> []"
      using createUniformDistribution_loop_total [OF assms, of s e] se(3) by auto
    have "normalizeProbabilities (a - r) u ps \<noteq> []"
      using ps(2) by (simp add: normalizeProbabilities_def Let_def)
    then obtain res where "assembleResult \<lparr>radiocarbon_age = a, uncertainty = u,
        reservoir_correction = r, curve = ct, search_mode = mode\<rparr>
        (normalizeProbabilities (a - r) u ps) = ([], Inr res)"
      using assembleResult_nonempty by blast
    then have "calibrateCurve a u r ct mode cd = Some ([], Inr res)"
      using se ps(1) by (simp add: calibrateCurve_def rng createUniformDistribution_def)
    then show ?thesis using rng True by auto
  qed
qed


text \<open>
  A call with valid arguments and a loaded, non-empty curve raises exactly when the
  evaluated range holds no year; otherwise it returns a result, with no warning beyond the
  one for an unknown curve type.
\<close>

lemma calibrateDate_valid_outcome:
  assumes v: "validateInputs x y z = Inr (a, u, r)"
    and loaded: "getCalibrationData prov = Some curves \<or>
                 (getCalibrationData prov = None \<and> loadCalibrationData prov = Inr curves)"
    and cd: "curves (if ct \<in> set CURVE_TYPES then ct else ''IntCal20'') = Some (Array cd)"
    and ne: "cd \<noteq> []"
  shows "\<exists>lo hi. calendarRange mode cd (a - r) u = Inr (lo, hi) \<and>
           (if xle lo hi
            then \<exists>res. calibrateDate x y z ct mode prov =
                   Some (if ct \<in> set CURVE_TYPES then [] else [InvalidCurveType ct], Inr res)
            else calibrateDate x y z ct mode prov =
                   Some ((if ct \<in> set CURVE_TYPES then [] else [InvalidCurveType ct]) @
                           [InvalidDistribution, InvalidDistribution], Inl TypeError))"
proof -
  define w where "w = (if ct \<in> set CURVE_TYPES then [] else [InvalidCurveType ct])"
  define ct' where "ct' = (if ct \<in> set CURVE_TYPES then ct else ''IntCal20'')"
  obtain p ps where pps: "cd = p # ps" using ne by (cases cd) auto
  have l: "(case getCalibrationData prov of
              Some curves \<Rightarrow> Inr curves
            | None \<Rightarrow>
                (case loadCalibrationData prov of
                   Inl message \<Rightarrow> Inl (FailedToLoad message)
                 | Inr curves \<Rightarrow> Inr curves)) = Inr curves"
    using loaded by auto
  have d: "calibrateDate x y z ct mode prov =
             map_option (\<lambda>(ws, res). (w @ ws, res)) (calibrateCurve a u r ct' mode cd)"
    unfolding calibrateDate_valid [OF v] Let_def l
    using cd by (simp add: w_def ct'_def pps)
  from calibrateCurve_outcome [OF ne, of mode a r u ct']
  obtain lo hi where rng: "calendarRange mode cd (a - r) u = Inr (lo, hi)"
    and out: "if xle lo hi
            then \<exists>res. calibrateCurve a u r ct' mode cd = Some ([], Inr res)
            else calibrateCurve a u r ct' mode cd =
                   Some ([InvalidDistribution, InvalidDistribution], Inl TypeError)"
    by blast
  show ?thesis
  proof (cases "xle lo hi")
    case True
    then obtain res where "calibrateCurve a u r ct' mode cd = Some ([], Inr res)"
      using out by auto
    then have "calibrateDate x y z ct mode prov = Some (w, Inr res)" by (simp add: d)
    then show ?thesis using rng True unfolding w_def by auto
  next
    case False
    then have "calibrateCurve a u r ct' mode cd =
                 Some ([InvalidDistribution, InvalidDistribution], Inl TypeError)"
      using out by simp
    then have "calibrateDate x y z ct mode prov =
                 Some (w @ [InvalidDistribution, InvalidDistribution], Inl TypeError)"
      by (simp add: d)
    then show ?thesis using rng False unfolding w_def by auto
  qed
qed
end
